theory Spec2Isabelle
  imports Main
begin

section \<open>Strings and the Go library functions the range parser calls\<close>

text \<open>
  A Go string is a byte sequence; it is modelled as a \<^typ>\<open>string\<close> (a list of 8-bit
  characters). The regular expressions of the package only name ASCII characters, so a
  byte of a multi-byte rune never matches any of their classes.
\<close>

definition byte :: "char \<Rightarrow> nat" where
  "byte c = of_char c"

definition in_range :: "char \<Rightarrow> char \<Rightarrow> char \<Rightarrow> bool" where
  "in_range lo hi c = (byte lo \<le> byte c \<and> byte c \<le> byte hi)"

text \<open>The Perl classes \<open>\d\<close> and \<open>\s\<close> of Go's regexp syntax: \<open>[0-9]\<close> and \<open>[\t\n\f\r ]\<close>.\<close>

definition cls_d :: "char \<Rightarrow> bool" where
  "cls_d c = in_range CHR ''0'' CHR ''9'' c"

definition cls_s :: "char \<Rightarrow> bool" where
  "cls_s c = (c = CHR 0x09 \<or> c = CHR 0x0A \<or> c = CHR 0x0C \<or> c = CHR 0x0D \<or> c = CHR '' '')"

subsection \<open>Regular expressions with capture groups\<close>

text \<open>
  The syntax of the patterns that \<open>getRegex\<close> builds. \<open>Grp n r\<close> is the capturing
  group that Go numbers \<open>n\<close> (groups are numbered by their opening parenthesis, from 1);
  non-capturing groups \<open>(?:...)\<close> are just the nesting of the term.
\<close>

datatype regex =
    Cls "char \<Rightarrow> bool"
  | Bol
  | Eol
  | Seq regex regex
  | Alt regex regex
  | Star regex
  | Plus regex
  | Opt regex
  | Grp nat regex

abbreviation Chr :: "char \<Rightarrow> regex" where
  "Chr a \<equiv> Cls (\<lambda>c. c = a)"

text \<open>
  A matcher state: whether the position is the beginning of the text, the text still to
  read, and the captures so far. A group that takes no part in a match reads as the empty
  string, as in the result of \<open>FindStringSubmatch\<close> and in the expansion of \<open>$n\<close>.
\<close>

type_synonym captures = "nat \<Rightarrow> string"
type_synonym mstate = "bool \<times> string \<times> captures"

definition rest :: "mstate \<Rightarrow> string" where
  "rest st = fst (snd st)"

definition caps :: "mstate \<Rightarrow> captures" where
  "caps st = snd (snd st)"

definition record_group :: "nat \<Rightarrow> mstate \<Rightarrow> mstate \<Rightarrow> mstate" where
  "record_group n st st' =
     (fst st', rest st', (caps st')(n := take (length (rest st) - length (rest st')) (rest st)))"

text \<open>
  Go's regexp returns the leftmost match and, among the matches that start there, the one
  a backtracking search finds first: alternatives left to right, \<open>*\<close>, \<open>+\<close> and \<open>?\<close>
  greedy. The matcher is that search, in continuation-passing style: \<open>k\<close> is what remains
  to be matched after the expression. An iteration of \<open>*\<close> must read at least one
  character (every starred expression of this package does), so the number of iterations
  is bounded by the length of the text: \<open>star mr n\<close> makes at most \<open>n\<close> iterations of
  the matcher \<open>mr\<close>.
\<close>

definition shorter :: "mstate \<Rightarrow> (mstate \<Rightarrow> mstate option) \<Rightarrow> mstate \<Rightarrow> mstate option" where
  "shorter st k st' = (if length (rest st') < length (rest st) then k st' else None)"

primrec star :: "((mstate \<Rightarrow> mstate option) \<Rightarrow> mstate \<Rightarrow> mstate option) \<Rightarrow> nat \<Rightarrow>
    (mstate \<Rightarrow> mstate option) \<Rightarrow> mstate \<Rightarrow> mstate option" where
  "star mr 0 k st = k st"
| "star mr (Suc n) k st =
     (case mr (shorter st (star mr n k)) st of
        Some r \<Rightarrow> Some r
      | None \<Rightarrow> k st)"

definition star_all :: "((mstate \<Rightarrow> mstate option) \<Rightarrow> mstate \<Rightarrow> mstate option) \<Rightarrow>
    (mstate \<Rightarrow> mstate option) \<Rightarrow> mstate \<Rightarrow> mstate option" where
  "star_all mr k st = star mr (length (rest st)) k st"

definition group_end :: "nat \<Rightarrow> mstate \<Rightarrow> (mstate \<Rightarrow> mstate option) \<Rightarrow> mstate \<Rightarrow> mstate option" where
  "group_end n st k st' = k (record_group n st st')"

primrec rmatch :: "regex \<Rightarrow> (mstate \<Rightarrow> mstate option) \<Rightarrow> mstate \<Rightarrow> mstate option" where
  "rmatch (Cls C) k st =
     (case rest st of
        [] \<Rightarrow> None
      | c # cs \<Rightarrow> if C c then k (False, cs, caps st) else None)"
| "rmatch Bol k st = (if fst st then k st else None)"
| "rmatch Eol k st = (if rest st = [] then k st else None)"
| "rmatch (Seq a b) k st = rmatch a (rmatch b k) st"
| "rmatch (Alt a b) k st =
     (case rmatch a k st of Some r \<Rightarrow> Some r | None \<Rightarrow> rmatch b k st)"
| "rmatch (Star a) k st = star_all (rmatch a) k st"
| "rmatch (Plus a) k st = rmatch a (star_all (rmatch a) k) st"
| "rmatch (Opt a) k st =
     (case rmatch a k st of Some r \<Rightarrow> Some r | None \<Rightarrow> k st)"
| "rmatch (Grp n a) k st = rmatch a (group_end n st k) st"

text \<open>A match that starts exactly at the current position: the state at its end.\<close>

definition match_here :: "regex \<Rightarrow> bool \<Rightarrow> string \<Rightarrow> mstate option" where
  "match_here re b s = rmatch re Some (b, s, \<lambda>_. [])"

text \<open>The leftmost match: the text skipped before it, and the state at its end.\<close>

fun search :: "regex \<Rightarrow> bool \<Rightarrow> string \<Rightarrow> (string \<times> mstate) option" where
  "search re b [] = map_option (Pair []) (match_here re b [])"
| "search re b (c # cs) =
     (case match_here re b (c # cs) of
        Some st \<Rightarrow> Some ([], st)
      | None \<Rightarrow> map_option (\<lambda>(pre, st). (c # pre, st)) (search re False cs))"

definition MatchString :: "regex \<Rightarrow> string \<Rightarrow> bool" where
  "MatchString re s = (search re True s \<noteq> None)"

text \<open>\<open>FindStringSubmatch\<close>: index 0 is the text of the whole match.\<close>

definition FindStringSubmatch :: "regex \<Rightarrow> string \<Rightarrow> captures option" where
  "FindStringSubmatch re s =
     map_option (\<lambda>(pre, st).
         (caps st)(0 := take (length s - length pre - length (rest st)) (drop (length pre) s)))
       (search re True s)"

subsection \<open>ReplaceAllString, Split and the functions of package strings\<close>

text \<open>
  \<open>re.ReplaceAllString(src, repl)\<close>: the matches are found left to right, each search
  starting where the previous match ended; \<open>repl\<close> is the expansion of the template on
  the captures of a match. After an empty match the search moves on by one character, and
  an empty match right after the previous match is not replaced.
\<close>

function replaceAll :: "regex \<Rightarrow> (captures \<Rightarrow> string) \<Rightarrow> bool \<Rightarrow> bool \<Rightarrow> string \<Rightarrow> string" where
  "replaceAll re repl b after s =
     (case match_here re b s of
        Some st \<Rightarrow>
          if length (rest st) < length s
          then repl (caps st) @ replaceAll re repl False True (rest st)
          else (if after then [] else repl (caps st)) @
               (case s of [] \<Rightarrow> [] | c # cs \<Rightarrow> c # replaceAll re repl False False cs)
      | None \<Rightarrow>
          (case s of [] \<Rightarrow> [] | c # cs \<Rightarrow> c # replaceAll re repl False False cs))"
  by pat_completeness auto
termination
  by (relation "measure (\<lambda>(re, repl, b, after, s). length s)") auto

declare replaceAll.simps [simp del]

definition ReplaceAllString :: "regex \<Rightarrow> (captures \<Rightarrow> string) \<Rightarrow> string \<Rightarrow> string" where
  "ReplaceAllString re repl s = replaceAll re repl True False s"

text \<open>
  \<open>re.Split(s, -1)\<close> for an expression that matches no empty string (the two expressions
  split on here, \<open>\s+\<close> and \<open>\s*\|\|\s*\<close>, do not): the pieces between the matches, the
  piece after the last match included; the empty text gives one empty piece. \<open>acc\<close> is
  the current piece, reversed.
\<close>

function splitAll :: "regex \<Rightarrow> bool \<Rightarrow> string \<Rightarrow> string \<Rightarrow> string list" where
  "splitAll re b acc s =
     (case s of
        [] \<Rightarrow> [rev acc]
      | c # cs \<Rightarrow>
          (case match_here re b s of
             Some st \<Rightarrow>
               if length (rest st) < length s
               then rev acc # splitAll re False [] (rest st)
               else splitAll re False (c # acc) cs
           | None \<Rightarrow> splitAll re False (c # acc) cs))"
  by pat_completeness auto
termination
  by (relation "measure (\<lambda>(re, b, acc, s). length s)") auto

declare splitAll.simps [simp del]

definition Split :: "regex \<Rightarrow> string \<Rightarrow> string list" where
  "Split re s = splitAll re True [] s"

text \<open>\<open>strings.Split(s, " ")\<close> and \<open>strings.Join(xs, " ")\<close>.\<close>

fun split_on :: "char \<Rightarrow> string \<Rightarrow> string \<Rightarrow> string list" where
  "split_on d acc [] = [rev acc]"
| "split_on d acc (c # cs) =
     (if c = d then rev acc # split_on d [] cs else split_on d (c # acc) cs)"

definition strings_Split :: "string \<Rightarrow> string list" where
  "strings_Split s = split_on CHR '' '' [] s"

fun Join :: "string list \<Rightarrow> string" where
  "Join [] = []"
| "Join [x] = x"
| "Join (x # y # ys) = x @ '' '' @ Join (y # ys)"

text \<open>
  The parts of the Go library that read Unicode tables are parameters: what
  \<open>strings.TrimFunc(s, unicode.IsSpace)\<close> and \<open>strings.TrimRightFunc(s, unicode.IsSpace)\<close>
  return, and the index \<open>strings.IndexFunc(s, unicode.IsDigit)\<close> finds in a string that
  starts with a non-ASCII byte. On ASCII text none of them is consulted.
\<close>

record unicode =
  TrimFunc_IsSpace :: "string \<Rightarrow> string"
  TrimRightFunc_IsSpace :: "string \<Rightarrow> string"
  IndexFunc_IsDigit :: "string \<Rightarrow> nat option"

text \<open>The table \<open>asciiSpace\<close> of package strings: \<open>\t \n \v \f \r\<close> and the space.\<close>

definition asciiSpace :: "char \<Rightarrow> bool" where
  "asciiSpace c = (c = CHR 0x09 \<or> c = CHR 0x0A \<or> c = CHR 0x0B \<or> c = CHR 0x0C \<or>
     c = CHR 0x0D \<or> c = CHR '' '')"

definition RuneSelf :: nat where
  "RuneSelf = 128"

text \<open>
  \<open>strings.TrimSpace\<close>: the loop from the left, then the loop from the right (on the
  reversed text); each hands over to the Unicode-aware function at a non-ASCII byte.
\<close>

fun trim_right :: "unicode \<Rightarrow> string \<Rightarrow> string" where
  "trim_right U [] = []"
| "trim_right U (c # r) =
     (if byte c \<ge> RuneSelf then TrimRightFunc_IsSpace U (rev (c # r))
      else if asciiSpace c then trim_right U r
      else rev (c # r))"

fun TrimSpace :: "unicode \<Rightarrow> string \<Rightarrow> string" where
  "TrimSpace U [] = []"
| "TrimSpace U (c # cs) =
     (if byte c \<ge> RuneSelf then TrimFunc_IsSpace U (c # cs)
      else if asciiSpace c then TrimSpace U cs
      else trim_right U (rev (c # cs)))"

text \<open>\<open>strings.IndexFunc(s, unicode.IsDigit)\<close>; \<open>None\<close> is the result -1.\<close>

fun IndexDigit :: "unicode \<Rightarrow> string \<Rightarrow> nat option" where
  "IndexDigit U [] = None"
| "IndexDigit U (c # cs) =
     (if byte c \<ge> RuneSelf then IndexFunc_IsDigit U (c # cs)
      else if cls_d c then Some 0
      else map_option Suc (IndexDigit U cs))"

subsection \<open>strconv.Atoi and strconv.Itoa\<close>

text \<open>
  Go's \<open>int\<close> is taken to be 64 bits wide: a value is an \<^typ>\<open>int\<close> between \<open>-2^63\<close> and
  \<open>2^63 - 1\<close>, and addition wraps around.
\<close>

definition wrap64 :: "int \<Rightarrow> int" where
  "wrap64 i = signed_take_bit 63 i"

definition int_add :: "int \<Rightarrow> int \<Rightarrow> int" where
  "int_add a b = wrap64 (a + b)"

definition digit_val :: "char \<Rightarrow> nat" where
  "digit_val c = byte c - byte CHR ''0''"

fun digits_val :: "nat \<Rightarrow> string \<Rightarrow> nat" where
  "digits_val acc [] = acc"
| "digits_val acc (c # cs) = digits_val (acc * 10 + digit_val c) cs"

text \<open>
  \<open>strconv.Atoi\<close>, with the error it returns dropped, as every caller here drops it
  (\<open>major, _ := strconv.Atoi(M)\<close>): 0 on a syntax error, and the nearest representable
  value when the number is out of range.
\<close>

definition Atoi :: "string \<Rightarrow> int" where
  "Atoi s =
     (let neg = (s \<noteq> [] \<and> hd s = CHR ''-'');
          ds = (if s \<noteq> [] \<and> (hd s = CHR ''-'' \<or> hd s = CHR ''+'') then tl s else s)
      in if ds = [] \<or> \<not> list_all cls_d ds then 0
         else if neg then (if digits_val 0 ds > 2 ^ 63 then - (2 ^ 63) else - int (digits_val 0 ds))
         else (if digits_val 0 ds \<ge> 2 ^ 63 then 2 ^ 63 - 1 else int (digits_val 0 ds)))"

definition digit_char :: "nat \<Rightarrow> char" where
  "digit_char d = ''0123456789'' ! d"

fun showNat :: "nat \<Rightarrow> string" where
  "showNat n =
     (if n < 10 then [digit_char n] else showNat (n div 10) @ [digit_char (n mod 10)])"

declare showNat.simps [simp del]

definition Itoa :: "int \<Rightarrow> string" where
  "Itoa i = (if i < 0 then ''-'' @ showNat (nat (- i)) else showNat (nat i))"

section \<open>The patterns of \<open>getRegex\<close>\<close>

text \<open>
  Each definition is the entry of the same name in the table \<open>src\<close>. A pattern that is
  spliced into several expressions has its groups numbered by its place there, so the
  number of its first group is an argument.
\<close>

definition NUMERICIDENTIFIER :: regex where
  "NUMERICIDENTIFIER = Alt (Chr CHR ''0'') (Seq (Cls (in_range CHR ''1'' CHR ''9'')) (Star (Cls cls_d)))"

definition NUMERICIDENTIFIERLOOSE :: regex where
  "NUMERICIDENTIFIERLOOSE = Plus (Cls cls_d)"

definition cls_letter_hyphen :: "char \<Rightarrow> bool" where
  "cls_letter_hyphen c =
     (in_range CHR ''a'' CHR ''z'' c \<or> in_range CHR ''A'' CHR ''Z'' c \<or> c = CHR ''-'')"

definition cls_alnum_hyphen :: "char \<Rightarrow> bool" where
  "cls_alnum_hyphen c =
     (in_range CHR ''a'' CHR ''z'' c \<or> in_range CHR ''A'' CHR ''Z'' c \<or>
      in_range CHR ''0'' CHR ''9'' c \<or> c = CHR ''-'')"

definition NONNUMERICIDENTIFIER :: regex where
  "NONNUMERICIDENTIFIER =
     Seq (Star (Cls cls_d)) (Seq (Cls cls_letter_hyphen) (Star (Cls cls_alnum_hyphen)))"

definition MAINVERSIONLOOSE :: "nat \<Rightarrow> regex" where
  "MAINVERSIONLOOSE g =
     Seq (Grp g NUMERICIDENTIFIERLOOSE) (Seq (Chr CHR ''.'')
    (Seq (Grp (g + 1) NUMERICIDENTIFIERLOOSE) (Seq (Chr CHR ''.'')
         (Grp (g + 2) NUMERICIDENTIFIERLOOSE))))"

definition PRERELEASEIDENTIFIER :: regex where
  "PRERELEASEIDENTIFIER = Alt NUMERICIDENTIFIER NONNUMERICIDENTIFIER"

definition PRERELEASEIDENTIFIERLOOSE :: regex where
  "PRERELEASEIDENTIFIERLOOSE = Alt NUMERICIDENTIFIERLOOSE NONNUMERICIDENTIFIER"

definition PRERELEASE :: "nat \<Rightarrow> regex" where
  "PRERELEASE g =
     Seq (Chr CHR ''-'')
       (Grp g (Seq PRERELEASEIDENTIFIER (Star (Seq (Chr CHR ''.'') PRERELEASEIDENTIFIER))))"

definition PRERELEASELOOSE :: "nat \<Rightarrow> regex" where
  "PRERELEASELOOSE g =
     Seq (Opt (Chr CHR ''-''))
       (Grp g (Seq PRERELEASEIDENTIFIERLOOSE
          (Star (Seq (Chr CHR ''.'') PRERELEASEIDENTIFIERLOOSE))))"

definition BUILDIDENTIFIER :: regex where
  "BUILDIDENTIFIER = Plus (Cls cls_alnum_hyphen)"

definition BUILD :: "nat \<Rightarrow> regex" where
  "BUILD g =
     Seq (Chr CHR ''+'')
       (Grp g (Seq BUILDIDENTIFIER (Star (Seq (Chr CHR ''.'') BUILDIDENTIFIER))))"

definition cls_v_eq_s :: "char \<Rightarrow> bool" where
  "cls_v_eq_s c = (c = CHR ''v'' \<or> c = CHR ''='' \<or> cls_s c)"

definition LOOSEPLAIN :: "nat \<Rightarrow> regex" where
  "LOOSEPLAIN g =
     Seq (Star (Cls cls_v_eq_s)) (Seq (MAINVERSIONLOOSE g)
    (Seq (Opt (PRERELEASELOOSE (g + 3))) (Opt (BUILD (g + 4)))))"

definition GTLT :: "nat \<Rightarrow> regex" where
  "GTLT g = Grp g (Seq (Opt (Alt (Chr CHR ''<'') (Chr CHR ''>''))) (Opt (Chr CHR ''='')))"

definition XRANGEIDENTIFIER :: regex where
  "XRANGEIDENTIFIER =
     Alt NUMERICIDENTIFIER (Alt (Chr CHR ''x'') (Alt (Chr CHR ''X'') (Chr CHR ''*'')))"

definition XRANGEPLAIN :: "nat \<Rightarrow> regex" where
  "XRANGEPLAIN g =
     Seq (Star (Cls cls_v_eq_s)) (Seq (Grp g XRANGEIDENTIFIER)
       (Opt (Seq (Chr CHR ''.'') (Seq (Grp (g + 1) XRANGEIDENTIFIER)
          (Opt (Seq (Chr CHR ''.'') (Seq (Grp (g + 2) XRANGEIDENTIFIER)
             (Seq (Opt (PRERELEASE (g + 3))) (Opt (BUILD (g + 4)))))))))))"

definition XRANGE :: regex where
  "XRANGE = Seq Bol (Seq (GTLT 1) (Seq (Star (Cls cls_s)) (Seq (XRANGEPLAIN 2) Eol)))"

definition LONETILDE :: regex where
  "LONETILDE = Seq (Chr CHR ''~'') (Opt (Chr CHR ''>''))"

definition TILDETRIM :: regex where
  "TILDETRIM = Seq (Grp 1 (Star (Cls cls_s))) (Seq LONETILDE (Plus (Cls cls_s)))"

definition TILDE :: regex where
  "TILDE = Seq Bol (Seq LONETILDE (Seq (XRANGEPLAIN 1) Eol))"

definition LONECARET :: regex where
  "LONECARET = Chr CHR ''^''"

definition CARETTRIM :: regex where
  "CARETTRIM = Seq (Grp 1 (Star (Cls cls_s))) (Seq LONECARET (Plus (Cls cls_s)))"

definition CARET :: regex where
  "CARET = Seq Bol (Seq LONECARET (Seq (XRANGEPLAIN 1) Eol))"

definition COMPARATORTRIM :: regex where
  "COMPARATORTRIM =
     Seq (Grp 1 (Star (Cls cls_s))) (Seq (GTLT 2) (Seq (Star (Cls cls_s))
       (Grp 3 (Alt (LOOSEPLAIN 4) (XRANGEPLAIN 9)))))"

definition HYPHENRANGE :: regex where
  "HYPHENRANGE =
     Seq Bol (Seq (Star (Cls cls_s)) (Seq (Grp 1 (XRANGEPLAIN 2))
    (Seq (Plus (Cls cls_s)) (Seq (Chr CHR ''-'') (Seq (Plus (Cls cls_s))
    (Seq (Grp 7 (XRANGEPLAIN 8)) (Seq (Star (Cls cls_s)) Eol)))))))"

definition STAR :: regex where
  "STAR =
     Seq (Opt (Grp 1 (Alt (Chr CHR ''<'') (Chr CHR ''>'')))) (Seq (Opt (Chr CHR ''=''))
       (Seq (Star (Cls cls_s)) (Chr CHR ''*'')))"

text \<open>The two expressions compiled in place: \<open>\s+\<close> and \<open>\s*\|\|\s*\<close>.\<close>

definition SPACES :: regex where
  "SPACES = Plus (Cls cls_s)"

definition ORSEP :: regex where
  "ORSEP =
     Seq (Star (Cls cls_s)) (Seq (Chr CHR ''|'') (Seq (Chr CHR ''|'') (Star (Cls cls_s))))"

section \<open>The Version type, as the range parser sees it\<close>

text \<open>
  The range parser reaches the Version type through two operations only: \<open>Parse\<close> (the
  error it may return is kept as \<open>None\<close>) and the three-way \<open>Compare\<close>. Both are
  parameters of the model.
\<close>

record 'v version_ops =
  Parse :: "string \<Rightarrow> 'v option"
  Compare :: "'v \<Rightarrow> 'v \<Rightarrow> int"

section \<open>Ranges and comparators\<close>

type_synonym 'v comparator = "'v \<Rightarrow> 'v \<Rightarrow> bool"

definition compEQ :: "'v version_ops \<Rightarrow> 'v comparator" where
  "compEQ V v1 v2 = (Compare V v1 v2 = 0)"

definition compNE :: "'v version_ops \<Rightarrow> 'v comparator" where
  "compNE V v1 v2 = (Compare V v1 v2 \<noteq> 0)"

definition compGT :: "'v version_ops \<Rightarrow> 'v comparator" where
  "compGT V v1 v2 = (Compare V v1 v2 = 1)"

definition compGE :: "'v version_ops \<Rightarrow> 'v comparator" where
  "compGE V v1 v2 = (Compare V v1 v2 \<ge> 0)"

definition compLT :: "'v version_ops \<Rightarrow> 'v comparator" where
  "compLT V v1 v2 = (Compare V v1 v2 = - 1)"

definition compLE :: "'v version_ops \<Rightarrow> 'v comparator" where
  "compLE V v1 v2 = (Compare V v1 v2 \<le> 0)"

text \<open>The struct \<open>versionRange\<close>; its fields \<open>v\<close> and \<open>c\<close> are \<open>vr_v\<close> and \<open>vr_c\<close> here.\<close>

record 'v versionRange =
  vr_v :: 'v
  vr_c :: "'v comparator"

text \<open>
  A \<open>Range\<close> is a Go function value, which may be \<open>nil\<close>: \<open>None\<close> below. Calling a
  \<open>nil\<close> function panics, so the result of a call is a \<^typ>\<open>bool option\<close>, \<open>None\<close>
  for the panic. \<open>&&\<close> and \<open>||\<close> evaluate their right operand only when needed.
\<close>

type_synonym 'v Range = "('v \<Rightarrow> bool option) option"

definition call :: "'v Range \<Rightarrow> 'v \<Rightarrow> bool option" where
  "call f x = (case f of None \<Rightarrow> None | Some g \<Rightarrow> g x)"

definition rangeFunc :: "'v versionRange \<Rightarrow> 'v Range" where
  "rangeFunc vr = Some (\<lambda>x. Some (vr_c vr x (vr_v vr)))"

definition OR :: "'v Range \<Rightarrow> 'v Range \<Rightarrow> 'v Range" where
  "OR rf f = Some (\<lambda>x. case call rf x of None \<Rightarrow> None | Some b \<Rightarrow> if b then Some True else call f x)"

definition AND :: "'v Range \<Rightarrow> 'v Range \<Rightarrow> 'v Range" where
  "AND rf f = Some (\<lambda>x. case call rf x of None \<Rightarrow> None | Some b \<Rightarrow> if b then call f x else Some False)"

datatype error =
    CouldNotGetVersion string
  | CouldNotParseComparator string string
  | CouldNotParseVersion string string
  | CouldNotParseRange string error

definition parseComparator :: "'v version_ops \<Rightarrow> string \<Rightarrow> 'v comparator option" where
  "parseComparator V s =
     (if s = ''=='' \<or> s = [] \<or> s = ''='' then Some (compEQ V)
      else if s = ''>'' then Some (compGT V)
      else if s = ''>='' then Some (compGE V)
      else if s = ''<'' then Some (compLT V)
      else if s = ''<='' then Some (compLE V)
      else if s = ''!'' \<or> s = ''!='' then Some (compNE V)
      else None)"

definition buildVersionRange :: "'v version_ops \<Rightarrow> string \<Rightarrow> string \<Rightarrow> error + 'v versionRange" where
  "buildVersionRange V opStr vStr =
     (case parseComparator V opStr of
        None \<Rightarrow> Inl (CouldNotParseComparator opStr (opStr @ vStr))
      | Some cmp \<Rightarrow>
          (case Parse V vStr of
             None \<Rightarrow> Inl (CouldNotParseVersion vStr (opStr @ vStr))
           | Some ver \<Rightarrow> Inr \<lparr>vr_v = ver, vr_c = cmp\<rparr>))"

definition splitComparatorVersion :: "unicode \<Rightarrow> string \<Rightarrow> error + string \<times> string" where
  "splitComparatorVersion U s =
     (if s = ''x'' then Inr ([], ''x'')
      else case IndexDigit U s of
             None \<Rightarrow> Inl (CouldNotGetVersion s)
           | Some i \<Rightarrow> Inr (TrimSpace U (take i s), drop i s))"

section \<open>Rewriting a range into plain comparators\<close>

definition isX :: "string \<Rightarrow> bool" where
  "isX s = (length s = 0 \<or> s = ''x'' \<or> s = ''X'' \<or> s = ''*'')"

text \<open>
  In each of the four functions below the source tests \<open>MatchString\<close> and then takes the
  groups of \<open>FindStringSubmatch\<close>; the first is true exactly when the second finds a
  match, so one case distinction stands for both.
\<close>

definition hyphenReplace :: "unicode \<Rightarrow> string \<Rightarrow> string" where
  "hyphenReplace U s =
     (case FindStringSubmatch HYPHENRANGE s of
        None \<Rightarrow> s
      | Some match \<Rightarrow>
          (let from = match 1; fM = match 2; fm = match 3; fp = match 4;
               to = match 7; tM = match 8; tm = match 9; tp = match 10; tpr = match 11;
               from = (if isX fM then []
                       else if isX fm then ''>='' @ fM @ ''.0.0''
                       else if isX fp then ''>='' @ fM @ ''.'' @ fm @ ''.0''
                       else ''>='' @ from);
               to = (if isX tM then []
                     else if isX tm then ''<'' @ Itoa (int_add (Atoi tM) 1) @ ''.0.0''
                     else if isX tp then ''<'' @ tM @ ''.'' @ Itoa (int_add (Atoi tm) 1) @ ''.0''
                     else if length tpr > 0 then ''<='' @ tM @ ''.'' @ tm @ ''.'' @ tp @ ''-'' @ tpr
                     else ''<='' @ to)
           in TrimSpace U (from @ '' '' @ to)))"

definition replaceTilde :: "string \<Rightarrow> string" where
  "replaceTilde s =
     (case FindStringSubmatch TILDE s of
        None \<Rightarrow> s
      | Some match \<Rightarrow>
          (let M = match 1; m = match 2; p = match 3; pr = match 4;
               major = Atoi M; minor = Atoi m
           in if isX M then []
              else if isX m then ''>='' @ M @ ''.0.0 <'' @ Itoa (int_add major 1) @ ''.0.0''
              else if isX p then
                ''>='' @ M @ ''.'' @ m @ ''.0 <'' @ M @ ''.'' @ Itoa (int_add minor 1) @ ''.0''
              else if length pr > 0 then
                ''>='' @ M @ ''.'' @ m @ ''.'' @ p @ ''-'' @ pr @
                '' <'' @ M @ ''.'' @ Itoa (int_add minor 1) @ ''.0''
              else
                ''>='' @ M @ ''.'' @ m @ ''.'' @ p @
                '' <'' @ M @ ''.'' @ Itoa (int_add minor 1) @ ''.0''))"

definition replaceTildes :: "unicode \<Rightarrow> string \<Rightarrow> string" where
  "replaceTildes U s = Join (map replaceTilde (Split SPACES (TrimSpace U s)))"

definition replaceCaret :: "string \<Rightarrow> string" where
  "replaceCaret s =
     (case FindStringSubmatch CARET s of
        None \<Rightarrow> s
      | Some match \<Rightarrow>
          (let M = match 1; m = match 2; p = match 3; pr = match 4;
               major = Atoi M; minor = Atoi m; patch = Atoi p
           in if isX M then []
              else if isX m then ''>='' @ M @ ''.0.0 <'' @ Itoa (int_add major 1) @ ''.0.0''
              else if isX p then
                (if M = ''0'' then
                   ''>='' @ M @ ''.'' @ m @ ''.0 <'' @ M @ ''.'' @ Itoa (int_add minor 1) @ ''.0''
                 else
                   ''>='' @ M @ ''.'' @ m @ ''.0 <'' @ Itoa (int_add major 1) @ ''.0.0'')
              else if length pr > 0 then
                (if M = ''0'' then
                   (if m = ''0'' then
                      ''>='' @ M @ ''.'' @ m @ ''.'' @ p @ ''-'' @ pr @
                      '' <'' @ M @ ''.'' @ m @ ''.'' @ Itoa (int_add patch 1)
                    else
                      ''>='' @ M @ ''.'' @ m @ ''.'' @ p @ ''-'' @ pr @
                      '' <'' @ M @ ''.'' @ Itoa (int_add minor 1) @ ''.0'')
                 else
                   ''>='' @ M @ ''.'' @ m @ ''.'' @ p @ ''-'' @ pr @
                   '' <'' @ Itoa (int_add major 1) @ ''.0.0'')
              else
                (if M = ''0'' then
                   (if m = ''0'' then
                      ''>='' @ M @ ''.'' @ m @ ''.'' @ p @
                      '' <'' @ M @ ''.'' @ m @ ''.'' @ Itoa (int_add patch 1)
                    else
                      ''>='' @ M @ ''.'' @ m @ ''.'' @ p @
                      '' <'' @ M @ ''.'' @ Itoa (int_add minor 1) @ ''.0'')
                 else
                   ''>='' @ M @ ''.'' @ m @ ''.'' @ p @
                   '' <'' @ Itoa (int_add major 1) @ ''.0.0'')))"

definition replaceCarets :: "unicode \<Rightarrow> string \<Rightarrow> string" where
  "replaceCarets U s = Join (map replaceCaret (Split SPACES (TrimSpace U s)))"

definition replaceXRange :: "string \<Rightarrow> string" where
  "replaceXRange s =
     (case FindStringSubmatch XRANGE s of
        None \<Rightarrow> s
      | Some match \<Rightarrow>
          (let ret = match 0; gtlt = match 1; M = match 2; m = match 3; p = match 4;
               xM = isX M; xm = (xM \<or> isX m); xp = (xm \<or> isX p); anyX = xp;
               gtlt = (if gtlt = ''='' \<and> anyX then [] else gtlt);
               major = Atoi M; minor = Atoi m
           in if xM then
                (if gtlt = ''>'' \<or> gtlt = ''<'' then ''<0.0.0'' else ''*'')
              else if length gtlt > 0 \<and> anyX then
                (let m = (if xm then ''0'' else m);
                     p = ''0'';
                     (gtlt, M, m, p) =
                       (if gtlt = ''>'' then
                          (if xm then (''>='', Itoa (int_add major 1), ''0'', ''0'')
                           else (''>='', M, Itoa (int_add minor 1), ''0''))
                        else if gtlt = ''<='' then
                          (if xm then (''<'', Itoa (int_add major 1), m, p)
                           else (''<'', M, Itoa (int_add minor 1), p))
                        else (gtlt, M, m, p))
                 in gtlt @ M @ ''.'' @ m @ ''.'' @ p)
              else if xm then ''>='' @ M @ ''.0.0 <'' @ Itoa (int_add major 1) @ ''.0.0''
              else if xp then
                ''>='' @ M @ ''.'' @ m @ ''.0 <'' @ M @ ''.'' @ Itoa (int_add minor 1) @ ''.0''
              else ret))"

definition replaceXRanges :: "unicode \<Rightarrow> string \<Rightarrow> string" where
  "replaceXRanges U s = Join (map replaceXRange (Split SPACES (TrimSpace U s)))"

definition replaceStars :: "unicode \<Rightarrow> string \<Rightarrow> string" where
  "replaceStars U s = ReplaceAllString STAR (\<lambda>match. ''>=0.0.0'') (TrimSpace U s)"

definition parseComparatorString :: "unicode \<Rightarrow> string \<Rightarrow> string" where
  "parseComparatorString U s =
     replaceStars U (replaceXRanges U (replaceTildes U (replaceCarets U s)))"

definition parseRange :: "unicode \<Rightarrow> string \<Rightarrow> string list" where
  "parseRange U s =
     (let s = TrimSpace U s;
          s = hyphenReplace U s;
          s = ReplaceAllString COMPARATORTRIM (\<lambda>match. match 1 @ match 2 @ match 3) s;
          s = ReplaceAllString TILDETRIM (\<lambda>match. match 1 @ ''~'') s;
          s = ReplaceAllString CARETTRIM (\<lambda>match. match 1 @ ''^'') s;
          s = Join (Split SPACES s);
          out = map (parseComparatorString U) (strings_Split s)
      in Split SPACES (Join out))"

section \<open>ParseRange\<close>

text \<open>The inner loop of \<open>ParseRange\<close>, over the comparators of one \<open>||\<close> part.\<close>

fun andLoop :: "unicode \<Rightarrow> 'v version_ops \<Rightarrow> 'v Range \<Rightarrow> string list \<Rightarrow> error + 'v Range" where
  "andLoop U V andFn [] = Inr andFn"
| "andLoop U V andFn (ap # aps) =
     (case splitComparatorVersion U ap of
        Inl err \<Rightarrow> Inl err
      | Inr (opStr, vStr) \<Rightarrow>
          (case buildVersionRange V opStr vStr of
             Inl err \<Rightarrow> Inl (CouldNotParseRange ap err)
           | Inr vr \<Rightarrow>
               (let rf = rangeFunc vr
                in andLoop U V (if andFn = None then rf else AND andFn rf) aps)))"

text \<open>The outer loop, over the parts.\<close>

fun orLoop :: "unicode \<Rightarrow> 'v version_ops \<Rightarrow> 'v Range \<Rightarrow> string list list \<Rightarrow> error + 'v Range" where
  "orLoop U V orFn [] = Inr orFn"
| "orLoop U V orFn (p # ps) =
     (case andLoop U V None p of
        Inl err \<Rightarrow> Inl err
      | Inr andFn \<Rightarrow> orLoop U V (if orFn = None then andFn else OR orFn andFn) ps)"

text \<open>The first loop: the parts between \<open>||\<close>, each rewritten into its comparators.\<close>

fun expandParts :: "unicode \<Rightarrow> string list \<Rightarrow> string list list" where
  "expandParts U [] = []"
| "expandParts U (part # parts) =
     (let parsed = parseRange U part
      in if length parsed > 0 then parseRange U (TrimSpace U part) # expandParts U parts
         else expandParts U parts)"

definition ParseRange :: "unicode \<Rightarrow> 'v version_ops \<Rightarrow> string \<Rightarrow> error + 'v Range" where
  "ParseRange U V s =
     (let orParts = Split ORSEP s;
          expandedParts = expandParts U orParts
      in orLoop U V None expandedParts)"

section \<open>A Version type for the examples\<close>

text \<open>
  Modelled from the spec: the Version type, its parser and its comparison are not part
  of the range parser's source. The spec gives the syntax
  \<open>v?MAJOR.MINOR.PATCH[-PRERELEASE][+BUILD]\<close> (the pattern \<open>FULL\<close> of the table) and
  the order: the numeric triple first; a version with a prerelease is lower than the same
  triple without one; prerelease identifiers are compared one by one, a numeric one below
  an alphanumeric one, numeric ones as integers, alphanumeric ones lexically, and a proper
  prefix is lower; build metadata is ignored.
\<close>

definition MAINVERSION :: "nat \<Rightarrow> regex" where
  "MAINVERSION g =
     Seq (Grp g NUMERICIDENTIFIER) (Seq (Chr CHR ''.'')
    (Seq (Grp (g + 1) NUMERICIDENTIFIER) (Seq (Chr CHR ''.'')
         (Grp (g + 2) NUMERICIDENTIFIER))))"

definition FULL :: regex where
  "FULL =
     Seq Bol (Seq (Opt (Chr CHR ''v'')) (Seq (MAINVERSION 1)
       (Seq (Opt (PRERELEASE 4)) (Seq (Opt (BUILD 5)) Eol))))"

datatype ident = Numeric nat | Alphanumeric string

record version =
  major :: nat
  minor :: nat
  patch :: nat
  prerelease :: "ident list"
  build :: "string list"

definition parseIdentifier :: "string \<Rightarrow> ident" where
  "parseIdentifier s = (if list_all cls_d s then Numeric (digits_val 0 s) else Alphanumeric s)"

definition parseVersion :: "string \<Rightarrow> version option" where
  "parseVersion s =
     (case FindStringSubmatch FULL s of
        None \<Rightarrow> None
      | Some match \<Rightarrow>
          Some \<lparr>major = digits_val 0 (match 1),
                minor = digits_val 0 (match 2),
                patch = digits_val 0 (match 3),
                prerelease =
                  (if match 4 = [] then [] else map parseIdentifier (split_on CHR ''.'' [] (match 4))),
                build = (if match 5 = [] then [] else split_on CHR ''.'' [] (match 5))\<rparr>)"

definition compareNat :: "nat \<Rightarrow> nat \<Rightarrow> int" where
  "compareNat a b = (if a < b then - 1 else if b < a then 1 else 0)"

fun compareString :: "string \<Rightarrow> string \<Rightarrow> int" where
  "compareString [] [] = 0"
| "compareString [] (y # ys) = - 1"
| "compareString (x # xs) [] = 1"
| "compareString (x # xs) (y # ys) =
     (if byte x < byte y then - 1 else if byte y < byte x then 1 else compareString xs ys)"

fun compareIdentifier :: "ident \<Rightarrow> ident \<Rightarrow> int" where
  "compareIdentifier (Numeric a) (Numeric b) = compareNat a b"
| "compareIdentifier (Numeric a) (Alphanumeric t) = - 1"
| "compareIdentifier (Alphanumeric s) (Numeric b) = 1"
| "compareIdentifier (Alphanumeric s) (Alphanumeric t) = compareString s t"

fun comparePrerelease :: "ident list \<Rightarrow> ident list \<Rightarrow> int" where
  "comparePrerelease [] [] = 0"
| "comparePrerelease [] (y # ys) = - 1"
| "comparePrerelease (x # xs) [] = 1"
| "comparePrerelease (x # xs) (y # ys) =
     (if compareIdentifier x y \<noteq> 0 then compareIdentifier x y else comparePrerelease xs ys)"

definition compareVersions :: "version \<Rightarrow> version \<Rightarrow> int" where
  "compareVersions a b =
     (if major a \<noteq> major b then compareNat (major a) (major b)
      else if minor a \<noteq> minor b then compareNat (minor a) (minor b)
      else if patch a \<noteq> patch b then compareNat (patch a) (patch b)
      else if prerelease a = [] \<and> prerelease b = [] then 0
      else if prerelease a = [] then 1
      else if prerelease b = [] then - 1
      else comparePrerelease (prerelease a) (prerelease b))"

definition specVersion :: "version version_ops" where
  "specVersion = \<lparr>Parse = parseVersion, Compare = compareVersions\<rparr>"

definition release :: "nat \<Rightarrow> nat \<Rightarrow> nat \<Rightarrow> version" where
  "release a b d = \<lparr>major = a, minor = b, patch = d, prerelease = [], build = []\<rparr>"

text \<open>
  A stand-in for the Unicode-aware library functions, for closed examples: on the ASCII
  texts of the examples they are never called.
\<close>

definition asciiOnly :: unicode where
  "asciiOnly = \<lparr>TrimFunc_IsSpace = (\<lambda>s. s), TrimRightFunc_IsSpace = (\<lambda>s. s),
     IndexFunc_IsDigit = (\<lambda>s. None)\<rparr>"

section \<open>What the claims speak of\<close>

text \<open>
  The comparators of a range: the parts between \<open>||\<close>, each rewritten by \<open>parseRange\<close>
  into its tokens, as the first loop of \<open>ParseRange\<close> collects them.
\<close>

definition orGroups :: "unicode \<Rightarrow> string \<Rightarrow> string list list" where
  "orGroups U raw = expandParts U (Split ORSEP raw)"

text \<open>
  The meaning of an operator on the result of the three-way comparison of the candidate
  with the operand, as the spec states it.
\<close>

definition satisfies :: "string \<Rightarrow> int \<Rightarrow> bool" where
  "satisfies opStr cmp =
     (if opStr = [] \<or> opStr = ''='' \<or> opStr = ''=='' then cmp = 0
      else if opStr = ''!'' \<or> opStr = ''!='' then cmp \<noteq> 0
      else if opStr = ''>'' then cmp = 1
      else if opStr = ''>='' then cmp \<ge> 0
      else if opStr = ''<'' then cmp = - 1
      else if opStr = ''<='' then cmp \<le> 0
      else False)"

definition comparatorTrue :: "unicode \<Rightarrow> 'v version_ops \<Rightarrow> 'v \<Rightarrow> string \<Rightarrow> bool" where
  "comparatorTrue U V x tok =
     (case splitComparatorVersion U tok of
        Inl err \<Rightarrow> False
      | Inr (opStr, vStr) \<Rightarrow>
          (case Parse V vStr of
             None \<Rightarrow> False
           | Some operand \<Rightarrow> satisfies opStr (Compare V x operand)))"

definition knownOperator :: "string \<Rightarrow> bool" where
  "knownOperator opStr =
     (opStr \<in> set [[], ''='', ''=='', ''!'', ''!='', ''>'', ''>='', ''<'', ''<=''])"

text \<open>
  A token that has no version to parse (no digit in it, so that \<open>splitComparatorVersion\<close>
  fails), whose operator is none of the nine, or whose version does not parse.
\<close>

definition rejectedToken :: "unicode \<Rightarrow> 'v version_ops \<Rightarrow> string \<Rightarrow> bool" where
  "rejectedToken U V tok =
     (case splitComparatorVersion U tok of
        Inl err \<Rightarrow> True
      | Inr (opStr, vStr) \<Rightarrow> \<not> knownOperator opStr \<or> Parse V vStr = None)"

subsection \<open>Operands of the shorthand forms\<close>

text \<open>
  A numeric identifier is \<open>0\<close> or a run of digits that does not start with 0; an x-range
  identifier is a numeric identifier or one of \<open>x\<close>, \<open>X\<close>, \<open>*\<close>; a prerelease is a text
  that the pattern \<open>PRERELEASE\<close> matches after its hyphen. The operand
  \<open>M[.m[.p[-pr]]]\<close> is given by its parts, a part left out being the empty string.
\<close>

definition numericIdentifier :: "string \<Rightarrow> bool" where
  "numericIdentifier s =
     (case s of
        [] \<Rightarrow> False
      | d # ds \<Rightarrow> (d = CHR ''0'' \<and> ds = []) \<or> (in_range CHR ''1'' CHR ''9'' d \<and> list_all cls_d ds))"

definition wildcard :: "string \<Rightarrow> bool" where
  "wildcard s = (s = ''x'' \<or> s = ''X'' \<or> s = ''*'')"

definition xrangeIdentifier :: "string \<Rightarrow> bool" where
  "xrangeIdentifier s = (numericIdentifier s \<or> wildcard s)"

definition isPrerelease :: "string \<Rightarrow> bool" where
  "isPrerelease pr = (match_here (Seq (PRERELEASE 1) Eol) False (CHR ''-'' # pr) \<noteq> None)"

definition xrangeText :: "string \<Rightarrow> string \<Rightarrow> string \<Rightarrow> string \<Rightarrow> string" where
  "xrangeText M m p pr =
     M @ (if m = [] then []
          else ''.'' @ m @ (if p = [] then []
                            else ''.'' @ p @ (if pr = [] then [] else ''-'' @ pr)))"

definition xrangeOperand :: "string \<Rightarrow> string \<Rightarrow> string \<Rightarrow> string \<Rightarrow> bool" where
  "xrangeOperand M m p pr =
     (xrangeIdentifier M \<and> (m = [] \<or> xrangeIdentifier m) \<and> (p = [] \<or> xrangeIdentifier p) \<and>
      (pr = [] \<or> isPrerelease pr) \<and> (m \<noteq> [] \<or> p = []) \<and> (p \<noteq> [] \<or> pr = []))"

definition prereleaseChar :: "char \<Rightarrow> bool" where
  "prereleaseChar x = (cls_alnum_hyphen x \<or> x = CHR ''.'')"

definition tokenChar :: "char \<Rightarrow> bool" where
  "tokenChar x = (byte x < RuneSelf \<and> \<not> asciiSpace x)"

definition isOperator :: "string \<Rightarrow> bool" where
  "isOperator gtlt = (gtlt \<in> set [[], ''<'', ''>'', ''<='', ''>='', ''=''])"

text \<open>The spec's \<open>isWildcard(part)\<close>: true for an empty string, \<open>x\<close>, \<open>X\<close> or \<open>*\<close>.\<close>

definition isWildcard :: "string \<Rightarrow> bool" where
  "isWildcard part = (part = [] \<or> part = ''x'' \<or> part = ''X'' \<or> part = ''*'')"

text \<open>The number a component denotes, and the decimal numeral of that number plus one.\<close>

definition numberOf :: "string \<Rightarrow> nat" where
  "numberOf s = digits_val 0 s"

definition incremented :: "string \<Rightarrow> string" where
  "incremented s = showNat (numberOf s + 1)"

text \<open>A component whose increment is still an \<open>int\<close>.\<close>

definition bounded :: "string \<Rightarrow> bool" where
  "bounded s = (numberOf s + 1 < 2 ^ 63)"

definition caretExpansion :: "string \<Rightarrow> string \<Rightarrow> string \<Rightarrow> string \<Rightarrow> string" where
  "caretExpansion M m p pr =
     (if isWildcard M then []
      else if isWildcard m then ''>='' @ M @ ''.0.0 <'' @ incremented M @ ''.0.0''
      else if isWildcard p then
        (if numberOf M = 0 then ''>='' @ M @ ''.'' @ m @ ''.0 <'' @ M @ ''.'' @ incremented m @ ''.0''
         else ''>='' @ M @ ''.'' @ m @ ''.0 <'' @ incremented M @ ''.0.0'')
      else ''>='' @ M @ ''.'' @ m @ ''.'' @ p @ (if pr = [] then [] else ''-'' @ pr) @ '' <'' @
        (if numberOf M = 0 \<and> numberOf m \<noteq> 0 then M @ ''.'' @ incremented m @ ''.0''
         else if numberOf M = 0 \<and> numberOf m = 0 then M @ ''.'' @ m @ ''.'' @ incremented p
         else incremented M @ ''.0.0''))"

definition tildeExpansion :: "string \<Rightarrow> string \<Rightarrow> string \<Rightarrow> string \<Rightarrow> string" where
  "tildeExpansion M m p pr =
     (if isWildcard M then []
      else if isWildcard m then ''>='' @ M @ ''.0.0 <'' @ incremented M @ ''.0.0''
      else if isWildcard p then ''>='' @ M @ ''.'' @ m @ ''.0 <'' @ M @ ''.'' @ incremented m @ ''.0''
      else ''>='' @ M @ ''.'' @ m @ ''.'' @ p @ (if pr = [] then [] else ''-'' @ pr) @
        '' <'' @ M @ ''.'' @ incremented m @ ''.0'')"

definition xrangeExpansion :: "string \<Rightarrow> string \<Rightarrow> string \<Rightarrow> string \<Rightarrow> string" where
  "xrangeExpansion gtlt M m p =
     (let operator = (if gtlt = ''='' then [] else gtlt)
      in if isWildcard M then (if operator = ''>'' \<or> operator = ''<'' then ''<0.0.0'' else ''*'')
         else if operator = ''>'' then
           (if isWildcard m then ''>='' @ incremented M @ ''.0.0''
            else ''>='' @ M @ ''.'' @ incremented m @ ''.0'')
         else if operator = ''<='' then
           (if isWildcard m then ''<'' @ incremented M @ ''.0.0''
            else ''<'' @ M @ ''.'' @ incremented m @ ''.0'')
         else if isWildcard m then ''>='' @ M @ ''.0.0 <'' @ incremented M @ ''.0.0''
         else ''>='' @ M @ ''.'' @ m @ ''.0 <'' @ M @ ''.'' @ incremented m @ ''.0'')"

definition lowerBound :: "string \<Rightarrow> string \<Rightarrow> string \<Rightarrow> string \<Rightarrow> string" where
  "lowerBound M m p pr =
     (if isWildcard M then []
      else if isWildcard m then ''>='' @ M @ ''.0.0''
      else if isWildcard p then ''>='' @ M @ ''.'' @ m @ ''.0''
      else ''>='' @ xrangeText M m p pr)"

definition upperBound :: "string \<Rightarrow> string \<Rightarrow> string \<Rightarrow> string \<Rightarrow> string" where
  "upperBound M m p pr =
     (if isWildcard M then []
      else if isWildcard m then ''<'' @ incremented M @ ''.0.0''
      else if isWildcard p then ''<'' @ M @ ''.'' @ incremented m @ ''.0''
      else if pr \<noteq> [] then ''<='' @ M @ ''.'' @ m @ ''.'' @ p @ ''-'' @ pr
      else ''<='' @ xrangeText M m p pr)"

text \<open>Two bounds side by side; a dropped bound leaves no space behind.\<close>

definition joinBounds :: "string \<Rightarrow> string \<Rightarrow> string" where
  "joinBounds lower upper =
     (if lower = [] then upper else if upper = [] then lower else lower @ '' '' @ upper)"

text \<open>
  A canonical token: an operator, or none, followed by a version of three numeric
  components. \<open>comparatorText\<close> writes the token out, and \<open>canonChar\<close> holds of the
  characters that such a text is made of.
\<close>

definition canonical :: "string \<times> string \<times> string \<times> string \<Rightarrow> bool" where
  "canonical tok =
     (case tok of (gtlt, M, m, p) \<Rightarrow>
        isOperator gtlt \<and> numericIdentifier M \<and> numericIdentifier m \<and> numericIdentifier p)"

definition comparatorText :: "string \<times> string \<times> string \<times> string \<Rightarrow> string" where
  "comparatorText tok = (case tok of (gtlt, M, m, p) \<Rightarrow> gtlt @ M @ ''.'' @ m @ ''.'' @ p)"

definition canonChar :: "char \<Rightarrow> bool" where
  "canonChar x = (cls_d x \<or> x = CHR ''.'' \<or> x = CHR ''<'' \<or> x = CHR ''>'' \<or> x = CHR ''='')"

subsection \<open>The language of a pattern\<close>

text \<open>
  The texts a pattern can match, whatever the order the matcher tries them in; \<open>plain\<close>
  patterns have neither groups nor anchors, and \<open>within P\<close> patterns only read
  characters that satisfy \<open>P\<close>. They serve to reason about the matcher.
\<close>

inductive_set star_lang :: "string set \<Rightarrow> string set" for A :: "string set" where
  nil: "[] \<in> star_lang A"
| step: "u \<in> A \<Longrightarrow> u \<noteq> [] \<Longrightarrow> w \<in> star_lang A \<Longrightarrow> u @ w \<in> star_lang A"

primrec lang :: "regex \<Rightarrow> string set" where
  "lang (Cls C) = {[x] | x. C x}"
| "lang Bol = {[]}"
| "lang Eol = {[]}"
| "lang (Seq a b) = {u @ w | u w. u \<in> lang a \<and> w \<in> lang b}"
| "lang (Alt a b) = lang a \<union> lang b"
| "lang (Star a) = star_lang (lang a)"
| "lang (Plus a) = {u @ w | u w. u \<in> lang a \<and> w \<in> star_lang (lang a)}"
| "lang (Opt a) = insert [] (lang a)"
| "lang (Grp n a) = lang a"

primrec plain :: "regex \<Rightarrow> bool" where
  "plain (Cls C) = True"
| "plain Bol = False"
| "plain Eol = False"
| "plain (Seq a b) = (plain a \<and> plain b)"
| "plain (Alt a b) = (plain a \<and> plain b)"
| "plain (Star a) = plain a"
| "plain (Plus a) = plain a"
| "plain (Opt a) = plain a"
| "plain (Grp n a) = False"

primrec within :: "(char \<Rightarrow> bool) \<Rightarrow> regex \<Rightarrow> bool" where
  "within P (Cls C) = (\<forall>x. C x \<longrightarrow> P x)"
| "within P Bol = True"
| "within P Eol = True"
| "within P (Seq a b) = (within P a \<and> within P b)"
| "within P (Alt a b) = (within P a \<and> within P b)"
| "within P (Star a) = within P a"
| "within P (Plus a) = within P a"
| "within P (Opt a) = within P a"
| "within P (Grp n a) = within P a"

text \<open>
  The spec's \<open>parseRange(raw).matches(v)\<close>: the Range of \<open>ParseRange\<close> called on a version;
  \<open>None\<close> when \<open>ParseRange\<close> returns an error (or the call panics).
\<close>

definition matches :: "unicode \<Rightarrow> 'v version_ops \<Rightarrow> string \<Rightarrow> 'v \<Rightarrow> bool option" where
  "matches U V raw x = (case ParseRange U V raw of Inl err \<Rightarrow> None | Inr r \<Rightarrow> call r x)"

section \<open>Evaluation\<close>

text \<open>The equations that compute the model on a concrete text.\<close>

lemmas regex_defs = NUMERICIDENTIFIER_def NUMERICIDENTIFIERLOOSE_def NONNUMERICIDENTIFIER_def
  MAINVERSIONLOOSE_def PRERELEASEIDENTIFIER_def PRERELEASEIDENTIFIERLOOSE_def PRERELEASE_def
  PRERELEASELOOSE_def BUILDIDENTIFIER_def BUILD_def LOOSEPLAIN_def GTLT_def XRANGEIDENTIFIER_def
  XRANGEPLAIN_def XRANGE_def LONETILDE_def TILDETRIM_def TILDE_def LONECARET_def CARETTRIM_def
  CARET_def COMPARATORTRIM_def HYPHENRANGE_def STAR_def SPACES_def ORSEP_def MAINVERSION_def
  FULL_def

lemmas cls_defs = byte_def in_range_def cls_d_def cls_s_def cls_letter_hyphen_def
  cls_alnum_hyphen_def cls_v_eq_s_def

lemmas match_defs = shorter_def star_all_def group_end_def record_group_def rest_def caps_def
  match_here_def MatchString_def FindStringSubmatch_def

lemmas lib_defs = ReplaceAllString_def replaceAll.simps Split_def splitAll.simps
  strings_Split_def asciiSpace_def RuneSelf_def wrap64_def int_add_def digit_val_def Atoi_def
  digit_char_def showNat.simps Itoa_def Let_def

lemmas range_defs = isX_def hyphenReplace_def replaceTilde_def replaceTildes_def
  replaceCaret_def replaceCarets_def replaceXRange_def replaceXRanges_def replaceStars_def
  parseComparatorString_def parseRange_def

lemmas version_defs = parseVersion_def parseIdentifier_def compareNat_def compareVersions_def
  specVersion_def release_def

lemmas top_defs = matches_def ParseRange_def splitComparatorVersion_def buildVersionRange_def
  parseComparator_def rangeFunc_def AND_def OR_def call_def compEQ_def compNE_def compGT_def
  compGE_def compLT_def compLE_def

lemmas eval_defs = top_defs version_defs range_defs lib_defs regex_defs cls_defs match_defs

lemmas operand_defs = xrangeOperand_def xrangeIdentifier_def numericIdentifier_def wildcard_def
  isPrerelease_def xrangeText_def bounded_def numberOf_def isWildcard_def incremented_def
  isOperator_def

section \<open>The loops of \<open>ParseRange\<close>\<close>

lemma splitAll_nonempty: "splitAll re b acc s \<noteq> []"
  by (induction re b acc s rule: splitAll.induct)
     (subst splitAll.simps, auto split: list.splits option.splits)

lemma Split_nonempty: "Split re s \<noteq> []"
  by (simp add: Split_def splitAll_nonempty)

lemma parseRange_nonempty: "parseRange U s \<noteq> []"
  by (simp add: parseRange_def Let_def Split_nonempty)

lemma expandParts_eq:
  "expandParts U parts = map (\<lambda>part. parseRange U (TrimSpace U part)) parts"
  by (induction parts) (simp_all add: Let_def parseRange_nonempty)

lemma orGroups_nonempty:
  "orGroups U raw \<noteq> []" "\<forall>g\<in>set (orGroups U raw). g \<noteq> []"
  by (auto simp: orGroups_def expandParts_eq Split_nonempty parseRange_nonempty)

lemma parseComparator_cases:
  assumes "parseComparator V opStr = Some cmp"
  obtains "opStr = ''==''" | "opStr = []" | "opStr = ''=''" | "opStr = ''>''" | "opStr = ''>=''"
    | "opStr = ''<''" | "opStr = ''<=''" | "opStr = ''!''" | "opStr = ''!=''"
  using assms unfolding parseComparator_def by (meson option.distinct(1))

lemma parseComparator_sem:
  assumes "parseComparator V opStr = Some cmp"
  shows "cmp x w = satisfies opStr (Compare V x w)"
  using assms
proof (cases rule: parseComparator_cases)
  case 1 with assms show ?thesis by (auto simp: parseComparator_def satisfies_def compEQ_def)
next
  case 2 with assms show ?thesis by (auto simp: parseComparator_def satisfies_def compEQ_def)
next
  case 3 with assms show ?thesis by (auto simp: parseComparator_def satisfies_def compEQ_def)
next
  case 4 with assms show ?thesis by (auto simp: parseComparator_def satisfies_def compGT_def)
next
  case 5 with assms show ?thesis by (auto simp: parseComparator_def satisfies_def compGE_def)
next
  case 6 with assms show ?thesis by (auto simp: parseComparator_def satisfies_def compLT_def)
next
  case 7 with assms show ?thesis by (auto simp: parseComparator_def satisfies_def compLE_def)
next
  case 8 with assms show ?thesis by (auto simp: parseComparator_def satisfies_def compNE_def)
next
  case 9 with assms show ?thesis by (auto simp: parseComparator_def satisfies_def compNE_def)
qed

lemma parseComparator_known:
  assumes "parseComparator V opStr = Some cmp"
  shows "knownOperator opStr"
  using assms by (cases rule: parseComparator_cases) (simp_all add: knownOperator_def)

lemma andLoop_step:
  assumes "andLoop U V acc (t # ts) = Inr r"
  obtains opStr vStr cmp w where
    "splitComparatorVersion U t = Inr (opStr, vStr)"
    "parseComparator V opStr = Some cmp" "Parse V vStr = Some w"
    "andLoop U V (if acc = None then rangeFunc \<lparr>vr_v = w, vr_c = cmp\<rparr>
                  else AND acc (rangeFunc \<lparr>vr_v = w, vr_c = cmp\<rparr>)) ts = Inr r"
  using assms
  by (auto simp: buildVersionRange_def Let_def split: sum.splits option.splits prod.splits)

lemma andLoop_sem:
  "andLoop U V acc ts = Inr r \<Longrightarrow> acc = None \<or> (\<forall>x. call acc x = Some (P x)) \<Longrightarrow>
   acc = None \<longrightarrow> ts \<noteq> [] \<Longrightarrow>
   call r x = Some ((acc = None \<or> P x) \<and> (\<forall>t\<in>set ts. comparatorTrue U V x t))"
proof (induction ts arbitrary: acc P)
  case Nil
  then show ?case by auto
next
  case (Cons t ts)
  from Cons.prems(1) obtain opStr vStr cmp w where
    sp: "splitComparatorVersion U t = Inr (opStr, vStr)" and
    pc: "parseComparator V opStr = Some cmp" and pv: "Parse V vStr = Some w" and
    rec: "andLoop U V (if acc = None then rangeFunc \<lparr>vr_v = w, vr_c = cmp\<rparr>
                  else AND acc (rangeFunc \<lparr>vr_v = w, vr_c = cmp\<rparr>)) ts = Inr r"
    by (rule andLoop_step)
  let ?acc' = "if acc = None then rangeFunc \<lparr>vr_v = w, vr_c = cmp\<rparr>
                  else AND acc (rangeFunc \<lparr>vr_v = w, vr_c = cmp\<rparr>)"
  let ?P' = "\<lambda>y. (acc = None \<or> P y) \<and> comparatorTrue U V y t"
  have ct: "comparatorTrue U V y t = cmp y w" for y
    using sp pv parseComparator_sem [OF pc] by (simp add: comparatorTrue_def)
  have step: "\<forall>y. call ?acc' y = Some (?P' y)"
    using Cons.prems(2) by (auto simp: ct call_def rangeFunc_def AND_def)
  have ne: "?acc' \<noteq> None" by (simp add: rangeFunc_def AND_def)
  have "call r x = Some ((?acc' = None \<or> ?P' x) \<and> (\<forall>t\<in>set ts. comparatorTrue U V x t))"
    by (rule Cons.IH [OF rec]) (use step ne in auto)
  with ne show ?case by auto
qed

lemma andLoop_accepts:
  "andLoop U V acc ts = Inr r \<Longrightarrow> \<forall>t\<in>set ts. \<not> rejectedToken U V t"
proof (induction ts arbitrary: acc)
  case Nil
  then show ?case by simp
next
  case (Cons t ts)
  from Cons.prems obtain opStr vStr cmp w where
    sp: "splitComparatorVersion U t = Inr (opStr, vStr)" and
    pc: "parseComparator V opStr = Some cmp" and pv: "Parse V vStr = Some w" and
    rec: "andLoop U V (if acc = None then rangeFunc \<lparr>vr_v = w, vr_c = cmp\<rparr>
                  else AND acc (rangeFunc \<lparr>vr_v = w, vr_c = cmp\<rparr>)) ts = Inr r"
    by (rule andLoop_step)
  have "\<not> rejectedToken U V t"
    using sp pv parseComparator_known [OF pc] by (simp add: rejectedToken_def)
  with Cons.IH [OF rec] show ?case by simp
qed

lemma orLoop_sem:
  "orLoop U V acc gs = Inr r \<Longrightarrow> acc = None \<or> (\<forall>x. call acc x = Some (Q x)) \<Longrightarrow>
   \<forall>g\<in>set gs. g \<noteq> [] \<Longrightarrow> acc = None \<longrightarrow> gs \<noteq> [] \<Longrightarrow>
   call r x = Some ((acc \<noteq> None \<and> Q x) \<or> (\<exists>g\<in>set gs. \<forall>t\<in>set g. comparatorTrue U V x t))"
proof (induction gs arbitrary: acc Q)
  case Nil
  then show ?case by auto
next
  case (Cons g gs)
  from Cons.prems(1) obtain andFn where
    a: "andLoop U V None g = Inr andFn" and
    rec: "orLoop U V (if acc = None then andFn else OR acc andFn) gs = Inr r"
    by (auto split: sum.splits)
  have g: "g \<noteq> []" using Cons.prems(3) by simp
  have av: "call andFn y = Some (\<forall>t\<in>set g. comparatorTrue U V y t)" for y
    using andLoop_sem [OF a, of "\<lambda>_. True" y] g by simp
  let ?acc' = "if acc = None then andFn else OR acc andFn"
  let ?Q' = "\<lambda>y. (acc \<noteq> None \<and> Q y) \<or> (\<forall>t\<in>set g. comparatorTrue U V y t)"
  have "andFn \<noteq> None" using av [of x] by (cases andFn) (auto simp: call_def)
  then have ne: "?acc' \<noteq> None" by (simp add: OR_def)
  have step: "\<forall>y. call ?acc' y = Some (?Q' y)"
    using Cons.prems(2) av by (auto simp: OR_def call_def)
  have "call r x =
      Some ((?acc' \<noteq> None \<and> ?Q' x) \<or> (\<exists>g\<in>set gs. \<forall>t\<in>set g. comparatorTrue U V x t))"
    by (rule Cons.IH [OF rec]) (use step ne Cons.prems(3) in auto)
  with ne show ?case by auto
qed

lemma orLoop_accepts:
  "orLoop U V acc gs = Inr r \<Longrightarrow> \<forall>g\<in>set gs. \<forall>t\<in>set g. \<not> rejectedToken U V t"
proof (induction gs arbitrary: acc)
  case Nil
  then show ?case by simp
next
  case (Cons g gs)
  from Cons.prems obtain andFn where
    a: "andLoop U V None g = Inr andFn" and
    rec: "orLoop U V (if acc = None then andFn else OR acc andFn) gs = Inr r"
    by (auto split: sum.splits)
  from andLoop_accepts [OF a] Cons.IH [OF rec] show ?case by simp
qed

lemma ParseRange_orLoop: "ParseRange U V raw = orLoop U V None (orGroups U raw)"
  by (simp add: ParseRange_def orGroups_def Let_def)

lemma ParseRange_sem:
  assumes "ParseRange U V raw = Inr r"
  shows "call r x = Some (\<exists>g\<in>set (orGroups U raw). \<forall>t\<in>set g. comparatorTrue U V x t)"
proof -
  have "orLoop U V None (orGroups U raw) = Inr r"
    using assms by (simp add: ParseRange_orLoop)
  from orLoop_sem [OF this, of "\<lambda>_. True" x] orGroups_nonempty [of U raw]
  show ?thesis by simp
qed

section \<open>What the patterns match\<close>

lemma rest_tuple [simp]: "rest (b, s, c) = s"
  by (simp add: rest_def)

lemma caps_tuple [simp]: "caps (b, s, c) = c"
  by (simp add: caps_def)

lemma rmatch_Cls_Cons [simp]:
  "rmatch (Cls C) k (b, x # s, c) = (if C x then k (False, s, c) else None)"
  by simp

lemma rmatch_Cls_Nil [simp]: "rmatch (Cls C) k (b, [], c) = None"
  by simp

declare rmatch.simps(1) [simp del]

lemma rmatch_Cls_stop: "s = [] \<or> \<not> C (hd s) \<Longrightarrow> rmatch (Cls C) k (b, s, c) = None"
  by (cases s) auto

lemma star_stop:
  "s = [] \<or> \<not> C (hd s) \<Longrightarrow> star (rmatch (Cls C)) n k (b, s, c) = k (b, s, c)"
  by (cases n) (simp_all add: rmatch_Cls_stop)

lemma star_all_stop:
  "s = [] \<or> \<not> C (hd s) \<Longrightarrow> star_all (rmatch (Cls C)) k (b, s, c) = k (b, s, c)"
  by (simp add: star_all_def star_stop)

lemma star_greedy:
  "list_all C w \<Longrightarrow> t = [] \<or> \<not> C (hd t) \<Longrightarrow> length (w @ t) \<le> n \<Longrightarrow>
   k (b \<and> w = [], t, c) = Some res \<Longrightarrow> star (rmatch (Cls C)) n k (b, w @ t, c) = Some res"
proof (induction w arbitrary: n b)
  case Nil
  then show ?case by (simp add: star_stop)
next
  case (Cons a w)
  then obtain n' where n: "n = Suc n'" by (cases n) auto
  have "star (rmatch (Cls C)) n' k (False, w @ t, c) = Some res"
    using Cons.prems n by (intro Cons.IH) auto
  then show ?case using Cons.prems(1) n by (simp add: shorter_def rest_def)
qed

lemma star_all_greedy:
  "list_all C w \<Longrightarrow> t = [] \<or> \<not> C (hd t) \<Longrightarrow> k (b \<and> w = [], t, c) = Some res \<Longrightarrow>
   star_all (rmatch (Cls C)) k (b, w @ t, c) = Some res"
  by (simp add: star_all_def star_greedy rest_def)

lemma digit_not_zero_range: "in_range CHR ''1'' CHR ''9'' d \<Longrightarrow> d \<noteq> CHR ''0''"
  by (auto simp: in_range_def byte_def)

lemma rmatch_NUMERICIDENTIFIER:
  assumes "numericIdentifier M" "t = [] \<or> \<not> cls_d (hd t)" "k (False, t, c) = Some res"
  shows "rmatch NUMERICIDENTIFIER k (b, M @ t, c) = Some res"
proof -
  from assms(1) obtain d ds where M: "M = d # ds"
    and cases: "(d = CHR ''0'' \<and> ds = []) \<or> (in_range CHR ''1'' CHR ''9'' d \<and> list_all cls_d ds)"
    by (auto simp: numericIdentifier_def split: list.splits)
  from cases show ?thesis
  proof
    assume "d = CHR ''0'' \<and> ds = []"
    then show ?thesis using assms(3) M by (simp add: NUMERICIDENTIFIER_def)
  next
    assume d: "in_range CHR ''1'' CHR ''9'' d \<and> list_all cls_d ds"
    then have "star_all (rmatch (Cls cls_d)) k (False, ds @ t, c) = Some res"
      using assms(2,3) by (intro star_all_greedy) auto
    then show ?thesis using d M by (simp add: NUMERICIDENTIFIER_def digit_not_zero_range)
  qed
qed

lemma wildcard_not_numeric:
  "rmatch NUMERICIDENTIFIER k (b, CHR ''x'' # t, c) = None"
  "rmatch NUMERICIDENTIFIER k (b, CHR ''X'' # t, c) = None"
  "rmatch NUMERICIDENTIFIER k (b, CHR ''*'' # t, c) = None"
  by (simp_all add: NUMERICIDENTIFIER_def in_range_def byte_def)

lemma rmatch_XRANGEIDENTIFIER:
  assumes "xrangeIdentifier M" "t = [] \<or> \<not> cls_d (hd t)" "k (False, t, c(g := M)) = Some res"
  shows "rmatch (Grp g XRANGEIDENTIFIER) k (b, M @ t, c) = Some res"
proof -
  let ?st = "(b, M @ t, c)"
  have ge: "group_end g ?st k (False, t, c) = Some res"
    using assms(3) by (simp add: group_end_def record_group_def rest_def caps_def)
  from assms(1) consider "numericIdentifier M" | "M = ''x''" | "M = ''X''" | "M = ''*''"
    by (auto simp: xrangeIdentifier_def wildcard_def)
  then show ?thesis
  proof cases
    case 1
    from rmatch_NUMERICIDENTIFIER [of M t "group_end g ?st k" c res b, OF this assms(2) ge]
    show ?thesis by (simp add: XRANGEIDENTIFIER_def)
  next
    case 2
    then show ?thesis using ge by (simp add: XRANGEIDENTIFIER_def wildcard_not_numeric)
  next
    case 3
    then show ?thesis using ge by (simp add: XRANGEIDENTIFIER_def wildcard_not_numeric)
  next
    case 4
    then show ?thesis using ge by (simp add: XRANGEIDENTIFIER_def wildcard_not_numeric)
  qed
qed

lemma star_sound:
  assumes mr: "\<And>k b s c res. mr k (b, s, c) = Some res \<Longrightarrow>
      \<exists>u w c'. s = u @ w \<and> u \<in> A \<and> k (b \<and> u = [], w, c') = Some res \<and> (ng \<longrightarrow> c' = c)"
  shows "star mr n k (b, s, c) = Some res \<Longrightarrow>
      \<exists>u w c'. s = u @ w \<and> u \<in> star_lang A \<and> k (b \<and> u = [], w, c') = Some res \<and> (ng \<longrightarrow> c' = c)"
proof (induction n arbitrary: b s c)
  case 0
  then have "s = [] @ s \<and> [] \<in> star_lang A \<and> k (b \<and> [] = [], s, c) = Some res \<and> (ng \<longrightarrow> c = c)"
    by (simp add: star_lang.nil)
  then show ?case by blast
next
  case (Suc n)
  let ?K = "shorter (b, s, c) (star mr n k)"
  show ?case
  proof (cases "mr ?K (b, s, c)")
    case None
    with Suc.prems have "k (b, s, c) = Some res" by simp
    then have "s = [] @ s \<and> [] \<in> star_lang A \<and> k (b \<and> [] = [], s, c) = Some res \<and> (ng \<longrightarrow> c = c)"
      by (simp add: star_lang.nil)
    then show ?thesis by blast
  next
    case (Some r)
    with Suc.prems have "mr ?K (b, s, c) = Some res" by simp
    from mr [OF this] obtain u w c' where s: "s = u @ w" and u: "u \<in> A"
      and K: "?K (b \<and> u = [], w, c') = Some res" and c': "ng \<longrightarrow> c' = c"
      by blast
    from K have len: "length w < length s"
      and st: "star mr n k (b \<and> u = [], w, c') = Some res"
      by (auto simp: shorter_def split: if_splits)
    from len s have ne: "u \<noteq> []" by auto
    from Suc.IH [OF st] obtain u2 w2 c'' where w: "w = u2 @ w2" and u2: "u2 \<in> star_lang A"
      and k: "k ((b \<and> u = []) \<and> u2 = [], w2, c'') = Some res" and c'': "ng \<longrightarrow> c'' = c'"
      by blast
    have "s = (u @ u2) @ w2" using s w by simp
    moreover have "u @ u2 \<in> star_lang A" using u ne u2 by (rule star_lang.step)
    moreover have "k (b \<and> u @ u2 = [], w2, c'') = Some res" using k ne by simp
    moreover have "ng \<longrightarrow> c'' = c" using c' c'' by simp
    ultimately show ?thesis by blast
  qed
qed

lemma rmatch_sound:
  "rmatch R k (b, s, c) = Some res \<Longrightarrow>
   \<exists>u w c'. s = u @ w \<and> u \<in> lang R \<and> k (b \<and> u = [], w, c') = Some res \<and> (plain R \<longrightarrow> c' = c)"
proof (induction R arbitrary: k b s c res)
  case (Cls C)
  then obtain x s' where s: "s = x # s'" and x: "C x" and k: "k (False, s', c) = Some res"
    by (cases s) (auto split: if_splits)
  then have "s = [x] @ s' \<and> [x] \<in> lang (Cls C) \<and> k (b \<and> [x] = [], s', c) = Some res \<and>
      (plain (Cls C) \<longrightarrow> c = c)"
    by simp
  then show ?case by blast
next
  case Bol
  then have "s = [] @ s \<and> [] \<in> lang Bol \<and> k (b \<and> [] = [], s, c) = Some res"
    by (auto split: if_splits)
  then show ?case by auto
next
  case Eol
  then have "s = [] @ s \<and> [] \<in> lang Eol \<and> k (b \<and> [] = [], s, c) = Some res"
    by (auto split: if_splits)
  then show ?case by auto
next
  case (Seq R1 R2)
  from Seq.prems have "rmatch R1 (rmatch R2 k) (b, s, c) = Some res" by simp
  from Seq.IH(1) [OF this] obtain u w c' where s: "s = u @ w" and u: "u \<in> lang R1"
    and k2: "rmatch R2 k (b \<and> u = [], w, c') = Some res" and c': "plain R1 \<longrightarrow> c' = c"
    by blast
  from Seq.IH(2) [OF k2] obtain u2 w2 c'' where w: "w = u2 @ w2" and u2: "u2 \<in> lang R2"
    and k: "k ((b \<and> u = []) \<and> u2 = [], w2, c'') = Some res" and c'': "plain R2 \<longrightarrow> c'' = c'"
    by blast
  have "s = (u @ u2) @ w2" using s w by simp
  moreover have "u @ u2 \<in> lang (Seq R1 R2)" using u u2 by auto
  moreover have "k (b \<and> u @ u2 = [], w2, c'') = Some res" using k by simp
  moreover have "plain (Seq R1 R2) \<longrightarrow> c'' = c" using c' c'' by simp
  ultimately show ?case by blast
next
  case (Alt R1 R2)
  show ?case
  proof (cases "rmatch R1 k (b, s, c)")
    case None
    with Alt.prems have "rmatch R2 k (b, s, c) = Some res" by simp
    from Alt.IH(2) [OF this] show ?thesis by auto
  next
    case (Some r)
    with Alt.prems have "rmatch R1 k (b, s, c) = Some res" by simp
    from Alt.IH(1) [OF this] show ?thesis by auto
  qed
next
  case (Star R)
  from Star.prems have "star (rmatch R) (length s) k (b, s, c) = Some res"
    by (simp add: star_all_def)
  from star_sound [of "rmatch R" "lang R" "plain R", OF Star.IH this]
  show ?case by simp
next
  case (Plus R)
  from Plus.prems have "rmatch R (star_all (rmatch R) k) (b, s, c) = Some res" by simp
  from Plus.IH [OF this] obtain u w c' where s: "s = u @ w" and u: "u \<in> lang R"
    and k2: "star_all (rmatch R) k (b \<and> u = [], w, c') = Some res" and c': "plain R \<longrightarrow> c' = c"
    by blast
  from k2 have "star (rmatch R) (length w) k (b \<and> u = [], w, c') = Some res"
    by (simp add: star_all_def)
  from star_sound [of "rmatch R" "lang R" "plain R", OF Plus.IH this]
  obtain u2 w2 c'' where w: "w = u2 @ w2" and u2: "u2 \<in> star_lang (lang R)"
    and k: "k ((b \<and> u = []) \<and> u2 = [], w2, c'') = Some res" and c'': "plain R \<longrightarrow> c'' = c'"
    by blast
  have "s = (u @ u2) @ w2" using s w by simp
  moreover have "u @ u2 \<in> lang (Plus R)" using u u2 by auto
  moreover have "k (b \<and> u @ u2 = [], w2, c'') = Some res" using k by simp
  moreover have "plain (Plus R) \<longrightarrow> c'' = c" using c' c'' by simp
  ultimately show ?case by blast
next
  case (Opt R)
  show ?case
  proof (cases "rmatch R k (b, s, c)")
    case None
    with Opt.prems have "k (b, s, c) = Some res" by simp
    then have "s = [] @ s \<and> [] \<in> lang (Opt R) \<and> k (b \<and> [] = [], s, c) = Some res \<and>
        (plain (Opt R) \<longrightarrow> c = c)"
      by simp
    then show ?thesis by blast
  next
    case (Some r)
    with Opt.prems have "rmatch R k (b, s, c) = Some res" by simp
    from Opt.IH [OF this] show ?thesis by auto
  qed
next
  case (Grp n R)
  from Grp.prems have "rmatch R (group_end n (b, s, c) k) (b, s, c) = Some res" by simp
  from Grp.IH [OF this] show ?case by (auto simp: group_end_def record_group_def)
qed

lemma star_complete:
  assumes mr: "\<And>k b u w c. u \<in> A \<Longrightarrow> k (b \<and> u = [], w, c) \<noteq> None \<Longrightarrow>
      mr k (b, u @ w, c) \<noteq> None"
  shows "u \<in> star_lang A \<Longrightarrow> length (u @ w) \<le> n \<Longrightarrow> k (b \<and> u = [], w, c) \<noteq> None \<Longrightarrow>
      star mr n k (b, u @ w, c) \<noteq> None"
proof (induction u arbitrary: n b rule: star_lang.induct)
  case nil
  then show ?case by (cases n) (auto split: option.splits)
next
  case (step u1 u2)
  from step.prems(1) step.hyps(2) obtain n' where n: "n = Suc n'" by (cases n) auto
  have "k (False \<and> u2 = [], w, c) \<noteq> None" using step.prems(2) step.hyps(2) by simp
  with step.IH [of n' False] step.prems(1) step.hyps(2) n
  have r: "star mr n' k (False, u2 @ w, c) \<noteq> None"
    by (cases u1) auto
  let ?K = "shorter (b, (u1 @ u2) @ w, c) (star mr n' k)"
  have "?K (b \<and> u1 = [], u2 @ w, c) \<noteq> None"
    using r step.hyps(2) by (simp add: shorter_def)
  from mr [of u1 ?K b "u2 @ w" c, OF step.hyps(1) this]
  have "mr ?K (b, u1 @ u2 @ w, c) \<noteq> None" .
  then show ?case using n by (auto split: option.splits)
qed

lemma rmatch_complete:
  "plain R \<Longrightarrow> u \<in> lang R \<Longrightarrow> k (b \<and> u = [], w, c) \<noteq> None \<Longrightarrow>
   rmatch R k (b, u @ w, c) \<noteq> None"
proof (induction R arbitrary: k b u w c)
  case (Cls C)
  then show ?case by auto
next
  case (Seq R1 R2)
  from Seq.prems(2) obtain u1 u2 where u: "u = u1 @ u2" and u1: "u1 \<in> lang R1"
    and u2: "u2 \<in> lang R2" by auto
  have "k ((b \<and> u1 = []) \<and> u2 = [], w, c) \<noteq> None" using Seq.prems(3) u by simp
  from Seq.IH(2) [of u2 k "b \<and> u1 = []" w c, OF _ u2 this] Seq.prems(1)
  have "rmatch R2 k (b \<and> u1 = [], u2 @ w, c) \<noteq> None" by auto
  from Seq.IH(1) [of u1 "rmatch R2 k" b "u2 @ w" c, OF _ u1 this] Seq.prems(1)
  show ?case using u by simp
next
  case (Alt R1 R2)
  from Alt.prems(2) have "u \<in> lang R1 \<or> u \<in> lang R2" by simp
  then show ?case
  proof
    assume "u \<in> lang R1"
    from Alt.IH(1) [of u k b w c, OF _ this Alt.prems(3)] Alt.prems(1)
    show ?thesis by (auto split: option.splits)
  next
    assume "u \<in> lang R2"
    from Alt.IH(2) [of u k b w c, OF _ this Alt.prems(3)] Alt.prems(1)
    show ?thesis by (auto split: option.splits)
  qed
next
  case (Star R)
  have "star (rmatch R) (length (u @ w)) k (b, u @ w, c) \<noteq> None"
  proof (rule star_complete [where A = "lang R"])
    show "rmatch R k (b, u @ w, c) \<noteq> None"
      if "u \<in> lang R" "k (b \<and> u = [], w, c) \<noteq> None" for k b u w c
      using Star.IH [of u k b w c, OF _ that] Star.prems(1) by simp
    show "u \<in> star_lang (lang R)" using Star.prems(2) by simp
    show "length (u @ w) \<le> length (u @ w)" by simp
    show "k (b \<and> u = [], w, c) \<noteq> None" by fact
  qed
  then show ?case by (simp add: star_all_def)
next
  case (Plus R)
  from Plus.prems(2) obtain u1 u2 where u: "u = u1 @ u2" and u1: "u1 \<in> lang R"
    and u2: "u2 \<in> star_lang (lang R)" by auto
  have "star (rmatch R) (length (u2 @ w)) k (b \<and> u1 = [], u2 @ w, c) \<noteq> None"
  proof (rule star_complete [where A = "lang R"])
    show "rmatch R k (b, u @ w, c) \<noteq> None"
      if "u \<in> lang R" "k (b \<and> u = [], w, c) \<noteq> None" for k b u w c
      using Plus.IH [of u k b w c, OF _ that] Plus.prems(1) by simp
    show "u2 \<in> star_lang (lang R)" by fact
    show "length (u2 @ w) \<le> length (u2 @ w)" by simp
    show "k ((b \<and> u1 = []) \<and> u2 = [], w, c) \<noteq> None" using Plus.prems(3) u by simp
  qed
  then have "star_all (rmatch R) k (b \<and> u1 = [], u2 @ w, c) \<noteq> None"
    by (simp add: star_all_def)
  from Plus.IH [of u1 "star_all (rmatch R) k" b "u2 @ w" c, OF _ u1 this] Plus.prems(1)
  show ?case using u by simp
next
  case (Opt R)
  from Opt.prems(2) have "u = [] \<or> u \<in> lang R" by simp
  then show ?case
  proof
    assume "u = []"
    with Opt.prems(3) show ?thesis by (auto split: option.splits)
  next
    assume "u \<in> lang R"
    from Opt.IH [of u k b w c, OF _ this Opt.prems(3)] Opt.prems(1)
    show ?thesis by (auto split: option.splits)
  qed
qed simp_all

lemma group_unique:
  assumes R: "plain R" and u: "u \<in> lang R"
    and alt: "\<And>u' w' b' c'. u' @ w' = u @ t \<Longrightarrow> u' \<in> lang R \<Longrightarrow> u' \<noteq> u \<Longrightarrow> k (b', w', c') = None"
  shows "rmatch (Grp g R) k (b, u @ t, c) = k (b \<and> u = [], t, c(g := u))"
proof -
  let ?st = "(b, u @ t, c)"
  let ?K = "group_end g ?st k"
  have K: "?K (b', w', c) = k (b', w', c(g := u'))" if "u' @ w' = u @ t" for b' u' w'
    using that [symmetric] by (simp add: group_end_def record_group_def)
  have only: "k (b \<and> u = [], t, c(g := u)) = Some res" if "rmatch R ?K ?st = Some res" for res
  proof -
    from rmatch_sound [OF that] R obtain u' w' where s: "u @ t = u' @ w'" and u': "u' \<in> lang R"
      and k: "?K (b \<and> u' = [], w', c) = Some res" by auto
    from k K [of u' w'] s have kk: "k (b \<and> u' = [], w', c(g := u')) = Some res" by simp
    have "u' = u"
    proof (rule ccontr)
      assume "u' \<noteq> u"
      from alt [OF s [symmetric] u' this] kk show False by simp
    qed
    with s kk show ?thesis by simp
  qed
  show ?thesis
  proof (cases "k (b \<and> u = [], t, c(g := u))")
    case None
    have "rmatch R ?K ?st = None"
    proof (cases "rmatch R ?K ?st")
      case (Some res)
      from only [OF this] None show ?thesis by simp
    qed simp
    with None show ?thesis by simp
  next
    case (Some res)
    then have "?K (b \<and> u = [], t, c) = Some res" using K [of u t] by simp
    then have "?K (b \<and> u = [], t, c) \<noteq> None" by simp
    from rmatch_complete [of R u ?K b t c, OF R u this]
    obtain res' where r: "rmatch R ?K ?st = Some res'"
      by blast
    from only [OF r] r Some show ?thesis by simp
  qed
qed

lemma star_lang_within:
  "u \<in> star_lang A \<Longrightarrow> \<forall>w\<in>A. list_all P w \<Longrightarrow> list_all P u"
  by (induction rule: star_lang.induct) auto

lemma lang_within: "within P R \<Longrightarrow> u \<in> lang R \<Longrightarrow> list_all P u"
proof (induction R arbitrary: u)
  case (Star R)
  then show ?case using star_lang_within [of u "lang R" P] by auto
next
  case (Plus R)
  then show ?case using star_lang_within [of _ "lang R" P] by auto
qed auto

lemma space_facts:
  assumes "cls_s x"
  shows "x \<noteq> CHR ''+''" "x \<noteq> CHR ''-''" "x \<noteq> CHR ''.''" "\<not> prereleaseChar x" "\<not> cls_d x"
    "\<not> cls_v_eq_s x \<longleftrightarrow> False"
  using assms by (auto simp: cls_defs prereleaseChar_def)

lemma prereleaseChar_facts:
  assumes "prereleaseChar x"
  shows "\<not> cls_s x" "x \<noteq> CHR ''+''"
  using assms by (auto simp: cls_defs prereleaseChar_def)

lemma rmatch_BUILD_stop: "t = [] \<or> hd t \<noteq> CHR ''+'' \<Longrightarrow> rmatch (BUILD n) k (b, t, c) = None"
  by (cases t) (auto simp: BUILD_def)

lemma rmatch_PRERELEASE_stop:
  "t = [] \<or> hd t \<noteq> CHR ''-'' \<Longrightarrow> rmatch (PRERELEASE n) k (b, t, c) = None"
  by (cases t) (auto simp: PRERELEASE_def)

lemma within_prerelease:
  "within prereleaseChar (Seq PRERELEASEIDENTIFIER (Star (Seq (Chr CHR ''.'') PRERELEASEIDENTIFIER)))"
  by (auto simp: regex_defs cls_defs prereleaseChar_def)

lemma plain_prerelease:
  "plain (Seq PRERELEASEIDENTIFIER (Star (Seq (Chr CHR ''.'') PRERELEASEIDENTIFIER)))"
  by (simp add: regex_defs)

lemma isPrerelease_lang:
  assumes "isPrerelease pr"
  shows "pr \<in> lang (Seq PRERELEASEIDENTIFIER (Star (Seq (Chr CHR ''.'') PRERELEASEIDENTIFIER)))"
proof -
  let ?R = "Seq PRERELEASEIDENTIFIER (Star (Seq (Chr CHR ''.'') PRERELEASEIDENTIFIER))"
  let ?K = "group_end 1 (False, pr, \<lambda>_. []) (rmatch Eol Some)"
  from assms obtain res where "rmatch ?R ?K (False, pr, \<lambda>_. []) = Some res"
    by (auto simp: isPrerelease_def match_here_def PRERELEASE_def)
  from rmatch_sound [OF this] obtain u w c' where pr: "pr = u @ w" and u: "u \<in> lang ?R"
    and k: "?K (False \<and> u = [], w, c') = Some res"
    by blast
  from k have "w = []" by (auto simp: group_end_def record_group_def split: if_splits)
  with pr u show ?thesis by simp
qed

lemma lang_prerelease_nonempty:
  "u \<in> lang (Seq PRERELEASEIDENTIFIER (Star (Seq (Chr CHR ''.'') PRERELEASEIDENTIFIER))) \<Longrightarrow> u \<noteq> []"
  by (auto simp: regex_defs)

lemma rmatch_PRERELEASE:
  assumes pr: "isPrerelease pr" and t: "t = [] \<or> \<not> prereleaseChar (hd t)"
    and kfail: "\<And>b s c. s \<noteq> [] \<Longrightarrow> prereleaseChar (hd s) \<Longrightarrow> k (b, s, c) = None"
  shows "rmatch (PRERELEASE g) k (b, CHR ''-'' # pr @ t, c) = k (False, t, c(g := pr))"
proof -
  let ?R = "Seq PRERELEASEIDENTIFIER (Star (Seq (Chr CHR ''.'') PRERELEASEIDENTIFIER))"
  have prl: "pr \<in> lang ?R" using pr by (rule isPrerelease_lang)
  then have ne: "pr \<noteq> []" by (rule lang_prerelease_nonempty)
  have chars: "list_all prereleaseChar pr"
    using within_prerelease prl by (rule lang_within)
  have "rmatch (Grp g ?R) k (False, pr @ t, c) = k (False \<and> pr = [], t, c(g := pr))"
  proof (rule group_unique [OF plain_prerelease prl])
    fix u' w' b' c'
    assume eq: "u' @ w' = pr @ t" and u': "u' \<in> lang ?R" and neq: "u' \<noteq> pr"
    have chars': "list_all prereleaseChar u'"
      using within_prerelease u' by (rule lang_within)
    from eq consider r where "u' = pr @ r" "r @ w' = t" | r where "u' @ r = pr" "w' = r @ t"
      by (auto simp: append_eq_append_conv2)
    then show "k (b', w', c') = None"
    proof cases
      case 1
      with neq have "r \<noteq> []" by auto
      with 1 have "t \<noteq> []" "hd t = hd r" "hd r \<in> set u'" by auto
      with chars' t show ?thesis by (auto simp: list_all_iff)
    next
      case 2
      with neq have r: "r \<noteq> []" by auto
      with 2 have "w' \<noteq> []" "hd w' = hd r" "hd r \<in> set pr" by auto
      with chars show ?thesis by (auto simp: list_all_iff intro: kfail)
    qed
  qed
  with ne show ?thesis by (simp add: PRERELEASE_def)
qed

lemma rmatch_tail:
  assumes pr: "pr = [] \<or> isPrerelease pr" and t: "t = [] \<or> cls_s (hd t)"
    and kfail: "\<And>b s c. s \<noteq> [] \<Longrightarrow> \<not> cls_s (hd s) \<Longrightarrow> k (b, s, c) = None"
    and c: "c n = []"
  shows "rmatch (Seq (Opt (PRERELEASE n)) (Opt (BUILD n'))) k
      (b, (if pr = [] then [] else CHR ''-'' # pr) @ t, c) = k (b \<and> pr = [], t, c(n := pr))"
proof -
  let ?K = "rmatch (Opt (BUILD n')) k"
  have build: "?K (b', t, c') = k (b', t, c')" for b' c'
    using t by (subst rmatch.simps, subst rmatch_BUILD_stop) (auto dest: space_facts)
  have Kfail: "?K (b', s, c') = None" if "s \<noteq> []" "prereleaseChar (hd s)" for b' s c'
    using that
    by (subst rmatch.simps, subst rmatch_BUILD_stop) (auto dest: prereleaseChar_facts intro: kfail)
  show ?thesis
  proof (cases "pr = []")
    case True
    have "rmatch (PRERELEASE n) ?K (b, t, c) = None"
      using t by (intro rmatch_PRERELEASE_stop) (auto dest: space_facts)
    with True build c show ?thesis by (simp add: fun_upd_idem)
  next
    case False
    with pr have ipr: "isPrerelease pr" by simp
    have t': "t = [] \<or> \<not> prereleaseChar (hd t)" using t by (auto dest: space_facts)
    have 1: "rmatch (PRERELEASE n) ?K (b, CHR ''-'' # pr @ t, c) = k (False, t, c(n := pr))"
      using rmatch_PRERELEASE [of pr t ?K n b c, OF ipr t' Kfail] build by simp
    have "prereleaseChar CHR ''-''" by (simp add: prereleaseChar_def cls_defs)
    from Kfail [of "CHR ''-'' # pr @ t" b c] this
    have 2: "?K (b, CHR ''-'' # pr @ t, c) = None" by simp
    from False 1 2 show ?thesis by (simp split: option.splits)
  qed
qed

lemma xrangeIdentifier_head:
  assumes "xrangeIdentifier s"
  shows "s \<noteq> []" "\<not> cls_v_eq_s (hd s)" "\<not> cls_s (hd s)"
  using assms
  by (auto simp: xrangeIdentifier_def numericIdentifier_def wildcard_def cls_defs
      split: list.splits)

lemma rmatch_dot_stop:
  "t = [] \<or> cls_s (hd t) \<Longrightarrow> rmatch (Seq (Chr CHR ''.'') R) k (b, t, c) = None"
  by (cases t) (auto dest: space_facts)

lemma rmatch_XRANGEPLAIN:
  assumes op: "xrangeOperand M m p pr" and t: "t = [] \<or> cls_s (hd t)"
    and kfail: "\<And>b s c. s \<noteq> [] \<Longrightarrow> \<not> cls_s (hd s) \<Longrightarrow> k (b, s, c) = None"
    and c: "c (g + 1) = []" "c (g + 2) = []" "c (g + 3) = []"
    and k: "k (False, t, c(g := M, g + 1 := m, g + 2 := p, g + 3 := pr)) = Some res"
  shows "rmatch (XRANGEPLAIN g) k (b, xrangeText M m p pr @ t, c) = Some res"
proof -
  let ?tail = "Seq (Opt (PRERELEASE (g + 3))) (Opt (BUILD (g + 4)))"
  let ?part3 = "Seq (Chr CHR ''.'') (Seq (Grp (g + 2) XRANGEIDENTIFIER) ?tail)"
  let ?part2 = "Seq (Chr CHR ''.'') (Seq (Grp (g + 1) XRANGEIDENTIFIER) (Opt ?part3))"
  let ?prt = "(if pr = [] then [] else CHR ''-'' # pr) @ t"
  from op have M: "xrangeIdentifier M" and m: "m = [] \<or> xrangeIdentifier m"
    and p: "p = [] \<or> xrangeIdentifier p" and pr: "pr = [] \<or> isPrerelease pr"
    and mp: "m = [] \<longrightarrow> p = []" and ppr: "p = [] \<longrightarrow> pr = []"
    by (auto simp: xrangeOperand_def)
  have nd: "?prt = [] \<or> \<not> cls_d (hd ?prt)"
    using t by (auto dest: space_facts simp: cls_defs)
  \<comment> \<open>from the patch on\<close>
  have s3: "rmatch (Opt ?part3) k (False, (if p = [] then [] else CHR ''.'' # p @ ?prt) @
      (if p = [] then t else []), c') = Some res"
    if c': "c' (g + 2) = []" "c' (g + 3) = []"
      and k': "k (False, t, c'(g + 2 := p, g + 3 := pr)) = Some res" for c'
  proof (cases "p = []")
    case True
    with ppr have "pr = []" by simp
    with True c' k' have "k (False, t, c') = Some res" by (simp add: fun_upd_idem)
    moreover have "rmatch ?part3 k (False, t, c') = None" using t by (rule rmatch_dot_stop)
    ultimately show ?thesis using True by simp
  next
    case False
    with p have xp: "xrangeIdentifier p" by simp
    have "rmatch ?tail k (False, ?prt, c'(g + 2 := p)) =
        k (False \<and> pr = [], t, c'(g + 2 := p, g + 3 := pr))"
      using c' by (intro rmatch_tail pr t kfail) simp_all
    with k' have "rmatch ?tail k (False, ?prt, c'(g + 2 := p)) = Some res" by simp
    from rmatch_XRANGEIDENTIFIER [of p ?prt "rmatch ?tail k" c' "g + 2" res False, OF xp nd this]
    have "rmatch ?part3 k (False, CHR ''.'' # p @ ?prt, c') = Some res" by simp
    with False show ?thesis by simp
  qed
  \<comment> \<open>from the minor on\<close>
  let ?rest2 = "(if p = [] then [] else CHR ''.'' # p @ ?prt) @ (if p = [] then t else [])"
  have nd2: "?rest2 = [] \<or> \<not> cls_d (hd ?rest2)"
    using t by (auto dest: space_facts simp: cls_defs)
  have s2: "rmatch (Opt ?part2) k (False, (if m = [] then t else CHR ''.'' # m @ ?rest2), c') = Some res"
    if c': "c' (g + 1) = []" "c' (g + 2) = []" "c' (g + 3) = []"
      and k': "k (False, t, c'(g + 1 := m, g + 2 := p, g + 3 := pr)) = Some res" for c'
  proof (cases "m = []")
    case True
    with mp ppr have "p = []" "pr = []" by simp_all
    with True c' k' have "k (False, t, c') = Some res" by (simp add: fun_upd_idem)
    moreover have "rmatch ?part2 k (False, t, c') = None" using t by (rule rmatch_dot_stop)
    ultimately show ?thesis using True by simp
  next
    case False
    with m have xm: "xrangeIdentifier m" by simp
    have "rmatch (Opt ?part3) k (False, ?rest2, c'(g + 1 := m)) = Some res"
      using c' k' by (intro s3) simp_all
    from rmatch_XRANGEIDENTIFIER [of m ?rest2 "rmatch (Opt ?part3) k" c' "g + 1" res False,
        OF xm nd2 this]
    have "rmatch ?part2 k (False, CHR ''.'' # m @ ?rest2, c') = Some res" by simp
    with False show ?thesis by simp
  qed
  \<comment> \<open>the major\<close>
  let ?rest1 = "if m = [] then t else CHR ''.'' # m @ ?rest2"
  have nd1: "?rest1 = [] \<or> \<not> cls_d (hd ?rest1)"
    using t by (auto dest: space_facts simp: cls_defs)
  have unfold_text: "xrangeText M m p pr @ t = M @ ?rest1"
    using mp ppr by (simp add: xrangeText_def)
  have "rmatch (Opt ?part2) k (False, ?rest1, c(g := M)) = Some res"
    using c k by (intro s2) simp_all
  from rmatch_XRANGEIDENTIFIER [of M ?rest1 "rmatch (Opt ?part2) k" c g res b, OF M nd1 this]
  have "rmatch (Seq (Grp g XRANGEIDENTIFIER) (Opt ?part2)) k (b, M @ ?rest1, c) = Some res"
    by simp
  moreover have "M @ ?rest1 \<noteq> []" "\<not> cls_v_eq_s (hd (M @ ?rest1))"
    using xrangeIdentifier_head [OF M] by simp_all
  ultimately show ?thesis
    unfolding unfold_text XRANGEPLAIN_def by (simp add: star_all_stop)
qed

lemma FindStringSubmatch_whole:
  assumes "match_here re True s = Some (b', [], c')" "s \<noteq> []"
  shows "FindStringSubmatch re s = Some (c'(0 := s))"
  using assms by (cases s) (simp_all add: FindStringSubmatch_def)

lemma Eol_fails: "s \<noteq> [] \<Longrightarrow> rmatch Eol k (b, s, c) = None"
  by simp

lemma FindStringSubmatch_CARET:
  assumes "xrangeOperand M m p pr"
  shows "FindStringSubmatch CARET (CHR ''^'' # xrangeText M m p pr) =
    Some ((\<lambda>_. [])(1 := M, 2 := m, 3 := p, 4 := pr, 0 := CHR ''^'' # xrangeText M m p pr))"
proof -
  let ?c = "(\<lambda>_. [])(1 := M, 2 := m, 3 := p, 4 := pr)"
  have "rmatch (XRANGEPLAIN 1) (rmatch Eol Some) (False, xrangeText M m p pr @ [], \<lambda>_. []) =
      Some (False, [], ?c)"
    by (rule rmatch_XRANGEPLAIN [OF assms]) (simp_all add: numeral_eq_Suc)
  then have "match_here CARET True (CHR ''^'' # xrangeText M m p pr) = Some (False, [], ?c)"
    by (simp add: match_here_def CARET_def LONECARET_def)
  from FindStringSubmatch_whole [OF this] show ?thesis by simp
qed

lemma FindStringSubmatch_TILDE:
  assumes "xrangeOperand M m p pr" "tilde = ''~'' \<or> tilde = ''~>''"
  shows "FindStringSubmatch TILDE (tilde @ xrangeText M m p pr) =
    Some ((\<lambda>_. [])(1 := M, 2 := m, 3 := p, 4 := pr, 0 := tilde @ xrangeText M m p pr))"
proof -
  let ?c = "(\<lambda>_. [])(1 := M, 2 := m, 3 := p, 4 := pr)"
  let ?s = "xrangeText M m p pr"
  have x: "rmatch (XRANGEPLAIN 1) (rmatch Eol Some) (False, ?s @ [], \<lambda>_. []) =
      Some (False, [], ?c)"
    by (rule rmatch_XRANGEPLAIN [OF assms(1)]) (simp_all add: numeral_eq_Suc)
  from assms(1) have "xrangeIdentifier M" by (simp add: xrangeOperand_def)
  then have "?s \<noteq> []" "hd ?s \<noteq> CHR ''>''"
    by (auto simp: xrangeText_def xrangeIdentifier_def numericIdentifier_def wildcard_def cls_defs
        split: list.splits)
  then obtain a s' where s: "?s = a # s'" "a \<noteq> CHR ''>''" by (cases ?s) auto
  from assms(2) have "match_here TILDE True (tilde @ ?s) = Some (False, [], ?c)"
  proof
    assume "tilde = ''~''"
    with x s show ?thesis by (simp add: match_here_def TILDE_def LONETILDE_def)
  next
    assume "tilde = ''~>''"
    with x show ?thesis by (simp add: match_here_def TILDE_def LONETILDE_def)
  qed
  from FindStringSubmatch_whole [OF this] assms(2) show ?thesis by auto
qed

lemma rmatch_GTLT:
  assumes "isOperator gtlt" "s \<noteq> []" "hd s \<noteq> CHR ''<''" "hd s \<noteq> CHR ''>''" "hd s \<noteq> CHR ''=''"
    and "k (b \<and> gtlt = [], s, c(g := gtlt)) = Some res"
  shows "rmatch (GTLT g) k (b, gtlt @ s, c) = Some res"
proof -
  from assms(2-5) obtain a s' where s: "s = a # s'" "a \<noteq> CHR ''<''" "a \<noteq> CHR ''>''" "a \<noteq> CHR ''=''"
    by (cases s) auto
  from assms(1) consider "gtlt = []" | "gtlt = ''<''" | "gtlt = ''>''" | "gtlt = ''<=''"
    | "gtlt = ''>=''" | "gtlt = ''=''"
    by (auto simp: isOperator_def)
  then show ?thesis
    using assms(6) s
    by cases (simp_all add: GTLT_def group_end_def record_group_def)
qed

lemma FindStringSubmatch_XRANGE:
  assumes "xrangeOperand M m p pr" "isOperator gtlt"
  shows "FindStringSubmatch XRANGE (gtlt @ xrangeText M m p pr) =
    Some ((\<lambda>_. [])(1 := gtlt, 2 := M, 3 := m, 4 := p, 5 := pr, 0 := gtlt @ xrangeText M m p pr))"
proof -
  let ?c = "(\<lambda>_. [])(1 := gtlt, 2 := M, 3 := m, 4 := p, 5 := pr)"
  let ?s = "xrangeText M m p pr"
  have x: "rmatch (XRANGEPLAIN 2) (rmatch Eol Some) (b, ?s @ [], (\<lambda>_. [])(1 := gtlt)) =
      Some (False, [], ?c)" for b
    by (rule rmatch_XRANGEPLAIN [OF assms(1)]) (simp_all add: numeral_eq_Suc)
  from assms(1) have M: "xrangeIdentifier M" by (simp add: xrangeOperand_def)
  then have hd: "?s \<noteq> []" "hd ?s \<noteq> CHR ''<''" "hd ?s \<noteq> CHR ''>''" "hd ?s \<noteq> CHR ''=''"
      "\<not> cls_s (hd ?s)"
    by (auto simp: xrangeText_def xrangeIdentifier_def numericIdentifier_def wildcard_def cls_defs
        split: list.splits)
  have "rmatch (Seq (Star (Cls cls_s)) (Seq (XRANGEPLAIN 2) Eol)) Some
      (b, ?s, (\<lambda>_. [])(1 := gtlt)) = Some (False, [], ?c)" for b
    using x [of b] hd by (simp add: star_all_stop)
  from rmatch_GTLT [of gtlt ?s "rmatch (Seq (Star (Cls cls_s)) (Seq (XRANGEPLAIN 2) Eol)) Some"
      True "\<lambda>_. []" 1 "(False, [], ?c)", OF assms(2) hd(1-4) this]
  have "match_here XRANGE True (gtlt @ ?s) = Some (False, [], ?c)"
    by (simp add: match_here_def XRANGE_def)
  from FindStringSubmatch_whole [OF this] hd(1) show ?thesis by simp
qed

lemma FindStringSubmatch_HYPHENRANGE:
  assumes A: "xrangeOperand fM fm fp fpr" and B: "xrangeOperand tM tm tp tpr"
  shows "FindStringSubmatch HYPHENRANGE
      (xrangeText fM fm fp fpr @ '' - '' @ xrangeText tM tm tp tpr) =
    Some ((\<lambda>_. [])(2 := fM, 3 := fm, 4 := fp, 5 := fpr, 1 := xrangeText fM fm fp fpr,
      8 := tM, 9 := tm, 10 := tp, 11 := tpr, 7 := xrangeText tM tm tp tpr,
      0 := xrangeText fM fm fp fpr @ '' - '' @ xrangeText tM tm tp tpr))"
proof -
  let ?A = "xrangeText fM fm fp fpr" and ?B = "xrangeText tM tm tp tpr"
  let ?cA = "(\<lambda>_. [])(2 := fM, 3 := fm, 4 := fp, 5 := fpr)"
  let ?cA1 = "?cA(1 := ?A)"
  let ?cB = "?cA1(8 := tM, 9 := tm, 10 := tp, 11 := tpr)"
  let ?kend = "rmatch (Seq (Star (Cls cls_s)) Eol) Some"
  let ?stB = "(False, ?B, ?cA1)"
  let ?k1 = "rmatch (Seq (Plus (Cls cls_s)) (Seq (Chr CHR ''-'') (Seq (Plus (Cls cls_s))
      (Seq (Grp 7 (XRANGEPLAIN 8)) (Seq (Star (Cls cls_s)) Eol))))) Some"
  let ?stA = "(True, ?A @ '' - '' @ ?B, \<lambda>_. [])"
  from A have fM: "xrangeIdentifier fM" by (simp add: xrangeOperand_def)
  from B have tM: "xrangeIdentifier tM" by (simp add: xrangeOperand_def)
  have hdA: "?A \<noteq> []" "\<not> cls_s (hd ?A)"
    using xrangeIdentifier_head [OF fM] by (simp_all add: xrangeText_def)
  have hdB: "?B \<noteq> []" "\<not> cls_s (hd ?B)"
    using xrangeIdentifier_head [OF tM] by (simp_all add: xrangeText_def)
  \<comment> \<open>the second operand, to the end of the text\<close>
  have "rmatch (XRANGEPLAIN 8) (group_end 7 ?stB ?kend) (False, ?B @ [], ?cA1) =
      Some (False, [], ?cB(7 := ?B))"
  proof (rule rmatch_XRANGEPLAIN [OF B])
    show "group_end 7 ?stB ?kend (b, s, c) = None" if "s \<noteq> []" "\<not> cls_s (hd s)" for b s c
      using that by (simp add: group_end_def record_group_def star_all_stop)
    show "group_end 7 ?stB ?kend (False, [], ?cA1(8 := tM, 8 + 1 := tm, 8 + 2 := tp, 8 + 3 := tpr)) =
        Some (False, [], ?cB(7 := ?B))"
      by (simp add: group_end_def record_group_def star_all_def)
  qed (simp_all add: numeral_eq_Suc)
  then have two: "rmatch (Seq (Grp 7 (XRANGEPLAIN 8)) (Seq (Star (Cls cls_s)) Eol)) Some ?stB =
      Some (False, [], ?cB(7 := ?B))"
    by simp
  have k1: "?k1 (False, '' - '' @ ?B, ?cA1) = Some (False, [], ?cB(7 := ?B))"
    using two hdB by (simp add: star_all_stop cls_s_def)
  \<comment> \<open>the first operand\<close>
  have "rmatch (XRANGEPLAIN 2) (group_end 1 ?stA ?k1) (True, ?A @ '' - '' @ ?B, \<lambda>_. []) =
      Some (False, [], ?cB(7 := ?B))"
  proof (rule rmatch_XRANGEPLAIN [OF A])
    show "group_end 1 ?stA ?k1 (b, s, c) = None" if "s \<noteq> []" "\<not> cls_s (hd s)" for b s c
      using that by (cases s) (simp_all add: group_end_def record_group_def)
    show "group_end 1 ?stA ?k1 (False, '' - '' @ ?B, (\<lambda>_. [])(2 := fM, 2 + 1 := fm, 2 + 2 := fp, 2 + 3 := fpr)) =
        Some (False, [], ?cB(7 := ?B))"
      using k1 by (simp add: group_end_def record_group_def)
  qed (simp_all add: cls_s_def)
  then have "match_here HYPHENRANGE True (?A @ '' - '' @ ?B) = Some (False, [], ?cB(7 := ?B))"
    using hdA by (simp add: match_here_def HYPHENRANGE_def star_all_stop)
  from FindStringSubmatch_whole [OF this] hdA show ?thesis by simp
qed

lemma isX_isWildcard: "isX s = isWildcard s"
  by (simp add: isX_def isWildcard_def)

lemma numericIdentifier_digits:
  assumes "numericIdentifier s"
  shows "s \<noteq> []" "list_all cls_d s" "hd s \<noteq> CHR ''-''" "hd s \<noteq> CHR ''+''"
  using assms by (auto simp: numericIdentifier_def cls_defs split: list.splits)

lemma Atoi_numeric:
  assumes "numericIdentifier s" "numberOf s < 2 ^ 63"
  shows "Atoi s = int (numberOf s)"
  using numericIdentifier_digits [OF assms(1)] assms(2)
  by (simp add: Atoi_def numberOf_def Let_def)

lemma wrap64_id: "- (2 ^ 63) \<le> i \<Longrightarrow> i < 2 ^ 63 \<Longrightarrow> wrap64 i = i"
  by (simp add: wrap64_def signed_take_bit_int_eq_self)

lemma increment:
  assumes "numericIdentifier s" "bounded s"
  shows "Itoa (int_add (Atoi s) 1) = incremented s"
proof -
  from assms(2) have b: "numberOf s + 1 < 2 ^ 63" by (simp add: bounded_def)
  then have "Atoi s = int (numberOf s)" using assms(1) by (intro Atoi_numeric) simp_all
  moreover from b have "int (numberOf s + 1) < int (2 ^ 63)" by (simp only: of_nat_less_iff)
  then have "int (numberOf s) + 1 < 2 ^ 63" by simp
  then have "wrap64 (int (numberOf s) + 1) = int (numberOf s) + 1"
    by (intro wrap64_id) simp_all
  ultimately show ?thesis
    by (simp add: int_add_def Itoa_def incremented_def nat_add_distrib)
qed

lemma digits_val_ge: "acc \<le> digits_val acc ds"
proof (induction ds arbitrary: acc)
  case (Cons d ds)
  have "acc \<le> acc * 10 + digit_val d" by simp
  also have "\<dots> \<le> digits_val (acc * 10 + digit_val d) ds" by (rule Cons.IH)
  finally show ?case by simp
qed simp

lemma numeric_zero:
  assumes "numericIdentifier s"
  shows "(s = ''0'') = (numberOf s = 0)"
proof -
  from assms obtain d ds where s: "s = d # ds"
    and cases: "(d = CHR ''0'' \<and> ds = []) \<or> (in_range CHR ''1'' CHR ''9'' d \<and> list_all cls_d ds)"
    by (auto simp: numericIdentifier_def split: list.splits)
  from cases show ?thesis
  proof
    assume "d = CHR ''0'' \<and> ds = []"
    with s show ?thesis by (simp add: numberOf_def digit_val_def byte_def)
  next
    assume d: "in_range CHR ''1'' CHR ''9'' d \<and> list_all cls_d ds"
    then have "1 \<le> digit_val d" "d \<noteq> CHR ''0''"
      by (auto simp: in_range_def digit_val_def byte_def)
    moreover have "digit_val d \<le> digits_val (digit_val d) ds" by (rule digits_val_ge)
    ultimately show ?thesis using s by (simp add: numberOf_def)
  qed
qed

lemma not_wildcard_numeric:
  assumes "s = [] \<or> xrangeIdentifier s" "\<not> isWildcard s"
  shows "numericIdentifier s"
  using assms by (auto simp: xrangeIdentifier_def wildcard_def isWildcard_def)

lemma component_facts:
  assumes "s = [] \<or> xrangeIdentifier s" "bounded s" "\<not> isWildcard s"
  shows "Itoa (int_add (Atoi s) 1) = incremented s" "(s = ''0'') = (numberOf s = 0)"
  using increment numeric_zero not_wildcard_numeric [OF assms(1,3)] assms(2) by auto

lemma replaceCaret_expansion:
  assumes op: "xrangeOperand M m p pr" and b: "bounded M" "bounded m" "bounded p"
  shows "replaceCaret (CHR ''^'' # xrangeText M m p pr) = caretExpansion M m p pr"
proof -
  from op have ids: "M = [] \<or> xrangeIdentifier M" "m = [] \<or> xrangeIdentifier m"
      "p = [] \<or> xrangeIdentifier p"
    by (auto simp: xrangeOperand_def)
  note fM = component_facts [OF ids(1) b(1)]
  note fm = component_facts [OF ids(2) b(2)]
  note fp = component_facts [OF ids(3) b(3)]
  show ?thesis
    unfolding replaceCaret_def FindStringSubmatch_CARET [OF op]
    by (simp add: Let_def isX_isWildcard caretExpansion_def fM fm fp)
qed

lemma replaceTilde_expansion:
  assumes op: "xrangeOperand M m p pr" and b: "bounded M" "bounded m"
    and t: "tilde = ''~'' \<or> tilde = ''~>''"
  shows "replaceTilde (tilde @ xrangeText M m p pr) = tildeExpansion M m p pr"
proof -
  from op have ids: "M = [] \<or> xrangeIdentifier M" "m = [] \<or> xrangeIdentifier m"
    by (auto simp: xrangeOperand_def)
  note fM = component_facts [OF ids(1) b(1)]
  note fm = component_facts [OF ids(2) b(2)]
  show ?thesis
    unfolding replaceTilde_def FindStringSubmatch_TILDE [OF op t]
    by (simp add: Let_def isX_isWildcard tildeExpansion_def fM fm)
qed

lemma replaceXRange_expansion:
  assumes op: "xrangeOperand M m p []" and g: "isOperator gtlt"
    and w: "isWildcard M \<or> isWildcard m \<or> isWildcard p"
    and cl: "isWildcard M \<or> gtlt = [] \<or> gtlt = ''='' \<or> gtlt = ''>'' \<or> gtlt = ''<=''"
    and b: "bounded M" "bounded m"
  shows "replaceXRange (gtlt @ xrangeText M m p []) = xrangeExpansion gtlt M m p"
proof -
  from op have ids: "M = [] \<or> xrangeIdentifier M" "m = [] \<or> xrangeIdentifier m"
    by (auto simp: xrangeOperand_def)
  note fM = component_facts [OF ids(1) b(1)]
  note fm = component_facts [OF ids(2) b(2)]
  from g consider "gtlt = []" | "gtlt = ''<''" | "gtlt = ''>''" | "gtlt = ''<=''"
    | "gtlt = ''>=''" | "gtlt = ''=''"
    by (auto simp: isOperator_def)
  then show ?thesis
  proof cases
    case 1
    with w show ?thesis
      unfolding replaceXRange_def FindStringSubmatch_XRANGE [OF op g]
      by (auto simp add: Let_def isX_isWildcard xrangeExpansion_def fM fm)
  next
    case 2
    with cl have "isWildcard M" by simp
    with 2 show ?thesis
      unfolding replaceXRange_def FindStringSubmatch_XRANGE [OF op g]
      by (simp add: Let_def isX_isWildcard xrangeExpansion_def)
  next
    case 3
    with w show ?thesis
      unfolding replaceXRange_def FindStringSubmatch_XRANGE [OF op g]
      by (auto simp add: Let_def isX_isWildcard xrangeExpansion_def fM fm)
  next
    case 4
    with w show ?thesis
      unfolding replaceXRange_def FindStringSubmatch_XRANGE [OF op g]
      by (auto simp add: Let_def isX_isWildcard xrangeExpansion_def fM fm)
  next
    case 5
    with cl have "isWildcard M" by simp
    with 5 show ?thesis
      unfolding replaceXRange_def FindStringSubmatch_XRANGE [OF op g]
      by (simp add: Let_def isX_isWildcard xrangeExpansion_def)
  next
    case 6
    with w show ?thesis
      unfolding replaceXRange_def FindStringSubmatch_XRANGE [OF op g]
      by (auto simp add: Let_def isX_isWildcard xrangeExpansion_def fM fm)
  qed
qed

lemma tokenChar_facts:
  "cls_d x \<Longrightarrow> tokenChar x" "prereleaseChar x \<Longrightarrow> tokenChar x"
  "tokenChar CHR ''.''" "tokenChar CHR ''-''" "tokenChar CHR ''0''" "tokenChar CHR ''<''"
  "tokenChar CHR ''>''" "tokenChar CHR ''=''" "\<not> tokenChar CHR '' ''"
  by (auto simp: tokenChar_def prereleaseChar_def cls_defs asciiSpace_def RuneSelf_def)

lemma xrangeIdentifier_chars: "xrangeIdentifier s \<Longrightarrow> list_all tokenChar s"
  by (auto simp: xrangeIdentifier_def numericIdentifier_def wildcard_def list_all_iff
      tokenChar_def cls_defs asciiSpace_def RuneSelf_def split: list.splits)

lemma isPrerelease_chars: "isPrerelease pr \<Longrightarrow> list_all tokenChar pr"
proof -
  assume "isPrerelease pr"
  then have "list_all prereleaseChar pr"
    using within_prerelease isPrerelease_lang lang_within by blast
  then show ?thesis by (auto simp: list_all_iff tokenChar_facts)
qed

lemma xrangeText_chars:
  assumes "xrangeOperand M m p pr"
  shows "list_all tokenChar (xrangeText M m p pr)" "xrangeText M m p pr \<noteq> []"
  using assms xrangeIdentifier_head(1) [of M]
  by (auto simp: xrangeOperand_def xrangeText_def tokenChar_facts
      dest: xrangeIdentifier_chars isPrerelease_chars)

lemma trim_right_id: "s \<noteq> [] \<Longrightarrow> tokenChar (last s) \<Longrightarrow> trim_right U (rev s) = s"
  by (cases s rule: rev_cases) (auto simp: tokenChar_def)

lemma TrimSpace_id:
  "s \<noteq> [] \<Longrightarrow> tokenChar (hd s) \<Longrightarrow> tokenChar (last s) \<Longrightarrow> TrimSpace U s = s"
  using trim_right_id [of s U] by (cases s) (auto simp: tokenChar_def)

lemma TrimSpace_bounds:
  assumes "lower = [] \<or> (tokenChar (hd lower) \<and> tokenChar (last lower))"
    and "upper = [] \<or> (tokenChar (hd upper) \<and> tokenChar (last upper))"
  shows "TrimSpace U (lower @ '' '' @ upper) = joinBounds lower upper"
proof (cases "lower = []")
  case True
  show ?thesis
  proof (cases "upper = []")
    case True
    with \<open>lower = []\<close> show ?thesis
      by (simp add: joinBounds_def asciiSpace_def RuneSelf_def byte_def)
  next
    case False
    with assms(2) have "TrimSpace U upper = upper" by (intro TrimSpace_id) auto
    with \<open>lower = []\<close> show ?thesis
      by (simp add: joinBounds_def asciiSpace_def RuneSelf_def byte_def)
  qed
next
  case False
  with assms(1) have l: "tokenChar (hd lower)" "tokenChar (last lower)" by auto
  show ?thesis
  proof (cases "upper = []")
    case True
    from False l obtain x xs where lower: "lower = x # xs" "tokenChar x" by (cases lower) auto
    have "trim_right U (rev (lower @ '' '')) = trim_right U (rev lower)"
      by (simp add: asciiSpace_def RuneSelf_def byte_def)
    also have "\<dots> = lower" using False l by (intro trim_right_id)
    finally show ?thesis using True lower False
      by (simp add: joinBounds_def tokenChar_def del: rev_append)
  next
    case u: False
    with assms(2) have "tokenChar (last upper)" by auto
    with False u l have "TrimSpace U (lower @ '' '' @ upper) = lower @ '' '' @ upper"
      by (intro TrimSpace_id) auto
    with False u show ?thesis by (simp add: joinBounds_def)
  qed
qed

lemma bound_ends:
  assumes "xrangeOperand M m p pr"
  shows "lowerBound M m p pr = [] \<or>
      (tokenChar (hd (lowerBound M m p pr)) \<and> tokenChar (last (lowerBound M m p pr)))"
    and "upperBound M m p pr = [] \<or>
      (tokenChar (hd (upperBound M m p pr)) \<and> tokenChar (last (upperBound M m p pr)))"
proof -
  from xrangeText_chars [OF assms] have "tokenChar (last (xrangeText M m p pr))"
    by (auto simp: list_all_iff)
  moreover have "tokenChar (last pr)" if "pr \<noteq> []"
    using that assms isPrerelease_chars [of pr] by (auto simp: xrangeOperand_def list_all_iff)
  ultimately show "lowerBound M m p pr = [] \<or>
      (tokenChar (hd (lowerBound M m p pr)) \<and> tokenChar (last (lowerBound M m p pr)))"
    and "upperBound M m p pr = [] \<or>
      (tokenChar (hd (upperBound M m p pr)) \<and> tokenChar (last (upperBound M m p pr)))"
    using xrangeText_chars(2) [OF assms]
    by (auto simp: lowerBound_def upperBound_def tokenChar_facts)
qed

lemma hyphenReplace_expansion:
  assumes A: "xrangeOperand fM fm fp fpr" and B: "xrangeOperand tM tm tp tpr"
    and b: "bounded tM" "bounded tm"
  shows "hyphenReplace U (xrangeText fM fm fp fpr @ '' - '' @ xrangeText tM tm tp tpr) =
    joinBounds (lowerBound fM fm fp fpr) (upperBound tM tm tp tpr)"
proof -
  from B have ids: "tM = [] \<or> xrangeIdentifier tM" "tm = [] \<or> xrangeIdentifier tm"
    by (auto simp: xrangeOperand_def)
  note fM = component_facts [OF ids(1) b(1)]
  note fm = component_facts [OF ids(2) b(2)]
  let ?from = "if isX fM then []
        else if isX fm then ''>='' @ fM @ ''.0.0''
        else if isX fp then ''>='' @ fM @ ''.'' @ fm @ ''.0''
        else ''>='' @ xrangeText fM fm fp fpr"
  let ?to = "if isX tM then []
        else if isX tm then ''<'' @ Itoa (int_add (Atoi tM) 1) @ ''.0.0''
        else if isX tp then ''<'' @ tM @ ''.'' @ Itoa (int_add (Atoi tm) 1) @ ''.0''
        else if length tpr > 0 then ''<='' @ tM @ ''.'' @ tm @ ''.'' @ tp @ ''-'' @ tpr
        else ''<='' @ xrangeText tM tm tp tpr"
  have low: "?from = lowerBound fM fm fp fpr"
    by (simp add: lowerBound_def isX_isWildcard)
  have up: "?to = upperBound tM tm tp tpr"
    by (simp add: upperBound_def isX_isWildcard fM fm)
  have "hyphenReplace U (xrangeText fM fm fp fpr @ '' - '' @ xrangeText tM tm tp tpr) =
      TrimSpace U (?from @ '' '' @ ?to)"
    unfolding hyphenReplace_def FindStringSubmatch_HYPHENRANGE [OF A B] Let_def option.case
    by (simp only: fun_upd_apply) simp
  also have "\<dots> = TrimSpace U (lowerBound fM fm fp fpr @ '' '' @ upperBound tM tm tp tpr)"
    by (simp only: low up)
  also have "\<dots> = joinBounds (lowerBound fM fm fp fpr) (upperBound tM tm tp tpr)"
    using bound_ends(1) [OF A] bound_ends(2) [OF B] by (rule TrimSpace_bounds)
  finally show ?thesis .
qed

section \<open>Text that the rewriting leaves alone\<close>

lemma match_here_sound:
  assumes "match_here re b s = Some st"
  shows "\<exists>u w. s = u @ w \<and> u \<in> lang re"
proof -
  from assms have "rmatch re Some (b, s, \<lambda>_. []) = Some st" by (simp add: match_here_def)
  from rmatch_sound [OF this] show ?thesis by blast
qed

lemma match_here_lacking:
  assumes "\<And>u. u \<in> lang re \<Longrightarrow> x \<in> set u" "x \<notin> set s"
  shows "match_here re b s = None"
proof (cases "match_here re b s")
  case (Some st)
  from match_here_sound [OF this] obtain u w where "s = u @ w" "u \<in> lang re" by blast
  with assms show ?thesis by auto
qed simp

lemma search_lacking:
  assumes "\<And>u. u \<in> lang re \<Longrightarrow> x \<in> set u" "x \<notin> set s"
  shows "search re b s = None"
  using assms(2)
proof (induction s arbitrary: b)
  case Nil
  then show ?case using match_here_lacking [where s = "[]" and b = b, OF assms(1)] by simp
next
  case (Cons a s)
  then show ?case using match_here_lacking [where s = "a # s" and b = b, OF assms(1)] by simp
qed

lemma FindStringSubmatch_lacking:
  assumes "\<And>u. u \<in> lang re \<Longrightarrow> x \<in> set u" "x \<notin> set s"
  shows "FindStringSubmatch re s = None"
  using search_lacking [OF assms] by (simp add: FindStringSubmatch_def)

lemma replaceAll_lacking:
  assumes "\<And>u. u \<in> lang re \<Longrightarrow> x \<in> set u" "x \<notin> set s"
  shows "replaceAll re repl b after s = s"
  using assms(2)
proof (induction s arbitrary: b after)
  case Nil
  then show ?case
    using match_here_lacking [where s = "[]" and b = b, OF assms(1)] by (subst replaceAll.simps) simp
next
  case (Cons a s)
  then show ?case
    using match_here_lacking [where s = "a # s" and b = b, OF assms(1)] by (subst replaceAll.simps) simp
qed

lemma lang_has_char:
  "u \<in> lang HYPHENRANGE \<Longrightarrow> CHR ''-'' \<in> set u"
  "u \<in> lang TILDETRIM \<Longrightarrow> CHR ''~'' \<in> set u"
  "u \<in> lang CARETTRIM \<Longrightarrow> CHR ''^'' \<in> set u"
  "u \<in> lang TILDE \<Longrightarrow> CHR ''~'' \<in> set u"
  "u \<in> lang CARET \<Longrightarrow> CHR ''^'' \<in> set u"
  "u \<in> lang STAR \<Longrightarrow> CHR ''*'' \<in> set u"
  by (auto simp: HYPHENRANGE_def TILDETRIM_def CARETTRIM_def TILDE_def CARET_def STAR_def
      LONETILDE_def LONECARET_def)

lemma rmatch_Plus_greedy:
  assumes "list_all C w" "w \<noteq> []" "t = [] \<or> \<not> C (hd t)" "k (False, t, c) = Some res"
  shows "rmatch (Plus (Cls C)) k (b, w @ t, c) = Some res"
proof -
  from assms(1,2) obtain a w' where w: "w = a # w'" "C a" "list_all C w'" by (cases w) auto
  have "star_all (rmatch (Cls C)) k (False, w' @ t, c) = Some res"
    using w(3) assms(3,4) by (intro star_all_greedy) simp_all
  with w show ?thesis by simp
qed

lemma rmatch_NUMERICIDENTIFIERLOOSE:
  assumes "numericIdentifier M" "t = [] \<or> \<not> cls_d (hd t)" "k (False, t, c(g := M)) = Some res"
  shows "rmatch (Grp g NUMERICIDENTIFIERLOOSE) k (b, M @ t, c) = Some res"
proof -
  have "group_end g (b, M @ t, c) k (False, t, c) = Some res"
    using assms(3) by (simp add: group_end_def record_group_def)
  with numericIdentifier_digits [OF assms(1)] assms(2)
  have "rmatch (Plus (Cls cls_d)) (group_end g (b, M @ t, c) k) (b, M @ t, c) = Some res"
    by (intro rmatch_Plus_greedy) simp_all
  then show ?thesis
    by (simp only: NUMERICIDENTIFIERLOOSE_def rmatch.simps)
qed

lemma rmatch_PRERELEASELOOSE_stop:
  assumes "t = [] \<or> hd t = CHR '' ''"
  shows "rmatch (PRERELEASELOOSE n) k (b, t, c) = None"
proof (cases t)
  case Nil
  then show ?thesis
    by (simp add: PRERELEASELOOSE_def PRERELEASEIDENTIFIERLOOSE_def NUMERICIDENTIFIERLOOSE_def
        NONNUMERICIDENTIFIER_def star_all_stop)
next
  case (Cons a t')
  with assms have "a = CHR '' ''" by simp
  with Cons show ?thesis
    by (simp add: PRERELEASELOOSE_def PRERELEASEIDENTIFIERLOOSE_def NUMERICIDENTIFIERLOOSE_def
        NONNUMERICIDENTIFIER_def star_all_stop cls_defs)
qed

lemma numericIdentifier_head:
  assumes "numericIdentifier M"
  shows "M \<noteq> []" "cls_d (hd M)" "\<not> cls_s (hd M)" "\<not> cls_v_eq_s (hd M)"
    "hd M \<noteq> CHR ''<''" "hd M \<noteq> CHR ''>''" "hd M \<noteq> CHR ''=''"
  using assms by (auto simp: numericIdentifier_def cls_defs split: list.splits)

lemma match_COMPARATORTRIM:
  assumes tok: "canonical (gtlt, M, m, p)" and ws: "ws = [] \<or> ws = '' ''"
    and r: "r = [] \<or> hd r = CHR '' ''"
  shows "match_here COMPARATORTRIM b (ws @ gtlt @ M @ ''.'' @ m @ ''.'' @ p @ r) =
    Some (False, r, (\<lambda>_. [])(1 := ws, 2 := gtlt, 4 := M, 5 := m, 6 := p,
      3 := M @ ''.'' @ m @ ''.'' @ p))"
proof -
  let ?v = "M @ ''.'' @ m @ ''.'' @ p"
  from tok have g: "isOperator gtlt" and M: "numericIdentifier M" and m: "numericIdentifier m"
    and p: "numericIdentifier p"
    by (simp_all add: canonical_def)
  have rd: "r = [] \<or> \<not> cls_d (hd r)" using r by (auto simp: cls_defs)
  have inner: "rmatch (Grp 3 (Alt (LOOSEPLAIN 4) (XRANGEPLAIN 9))) Some (b1, ?v @ r, c1) =
      Some (False, r, c1(4 := M, 5 := m, 6 := p, 3 := ?v))" for b1 c1
  proof -
    let ?st = "(b1, ?v @ r, c1)"
    let ?K = "group_end 3 ?st Some"
    let ?c = "c1(4 := M, 5 := m, 6 := p)"
    let ?tail = "rmatch (Seq (Opt (PRERELEASELOOSE 7)) (Opt (BUILD 8))) ?K"
    have "rmatch (BUILD 8) ?K (False, r, ?c) = None"
      using r by (intro rmatch_BUILD_stop) auto
    moreover have "rmatch (PRERELEASELOOSE 7) (rmatch (Opt (BUILD 8)) ?K) (False, r, ?c) = None"
      using r by (rule rmatch_PRERELEASELOOSE_stop)
    ultimately have tail: "?tail (False, r, ?c) = Some (False, r, ?c(3 := ?v))"
      by (simp add: group_end_def record_group_def)
    have p3: "rmatch (Grp 6 NUMERICIDENTIFIERLOOSE) ?tail (False, p @ r, c1(4 := M, 5 := m)) =
        Some (False, r, ?c(3 := ?v))"
      using p rd tail by (rule rmatch_NUMERICIDENTIFIERLOOSE)
    have "rmatch (Grp 5 NUMERICIDENTIFIERLOOSE)
        (rmatch (Seq (Chr CHR ''.'') (Grp 6 NUMERICIDENTIFIERLOOSE)) ?tail)
        (False, m @ (''.'' @ p @ r), c1(4 := M)) = Some (False, r, ?c(3 := ?v))"
      using m p3 by (intro rmatch_NUMERICIDENTIFIERLOOSE) (simp_all add: cls_defs)
    then have p2: "rmatch (Seq (Chr CHR ''.'') (Seq (Grp 5 NUMERICIDENTIFIERLOOSE)
        (Seq (Chr CHR ''.'') (Grp 6 NUMERICIDENTIFIERLOOSE)))) ?tail
        (False, ''.'' @ m @ ''.'' @ p @ r, c1(4 := M)) = Some (False, r, ?c(3 := ?v))"
      by simp
    have "rmatch (Grp 4 NUMERICIDENTIFIERLOOSE)
        (rmatch (Seq (Chr CHR ''.'') (Seq (Grp 5 NUMERICIDENTIFIERLOOSE)
          (Seq (Chr CHR ''.'') (Grp 6 NUMERICIDENTIFIERLOOSE)))) ?tail)
        (b1, M @ (''.'' @ m @ ''.'' @ p @ r), c1) = Some (False, r, ?c(3 := ?v))"
      using M p2 by (intro rmatch_NUMERICIDENTIFIERLOOSE) (simp_all add: cls_defs)
    then have "rmatch (LOOSEPLAIN 4) ?K ?st = Some (False, r, ?c(3 := ?v))"
      using numericIdentifier_head [OF M]
      by (simp add: LOOSEPLAIN_def MAINVERSIONLOOSE_def star_all_stop)
    then show ?thesis by simp
  qed
  have hdv: "?v @ r \<noteq> []" "hd (?v @ r) \<noteq> CHR ''<''" "hd (?v @ r) \<noteq> CHR ''>''"
      "hd (?v @ r) \<noteq> CHR ''=''" "\<not> cls_s (hd (?v @ r))"
    using numericIdentifier_head [OF M] by simp_all
  have after_op: "rmatch (Seq (Star (Cls cls_s)) (Grp 3 (Alt (LOOSEPLAIN 4) (XRANGEPLAIN 9))))
      Some (b1, ?v @ r, c1) = Some (False, r, c1(4 := M, 5 := m, 6 := p, 3 := ?v))" for b1 c1
    using inner [of b1 c1] hdv by (simp add: star_all_stop)
  have op: "rmatch (GTLT 2) (rmatch (Seq (Star (Cls cls_s))
        (Grp 3 (Alt (LOOSEPLAIN 4) (XRANGEPLAIN 9)))) Some) (b1, gtlt @ ?v @ r, c1) =
      Some (False, r, c1(2 := gtlt, 4 := M, 5 := m, 6 := p, 3 := ?v))" for b1 c1
    using g hdv(1-4) after_op by (rule rmatch_GTLT)
  have hdg: "gtlt @ ?v @ r \<noteq> []" "\<not> cls_s (hd (gtlt @ ?v @ r))"
    using g hdv by (auto simp: isOperator_def cls_defs)
  let ?rest = "rmatch (Seq (GTLT 2) (Seq (Star (Cls cls_s))
        (Grp 3 (Alt (LOOSEPLAIN 4) (XRANGEPLAIN 9))))) Some"
  let ?s = "ws @ gtlt @ ?v @ r"
  have wsp: "list_all cls_s ws" using ws by (auto simp: cls_s_def)
  have "group_end 1 (b, ?s, \<lambda>_. []) ?rest (b \<and> ws = [], gtlt @ ?v @ r, \<lambda>_. []) =
      Some (False, r, (\<lambda>_. [])(1 := ws, 2 := gtlt, 4 := M, 5 := m, 6 := p, 3 := ?v))"
    using op [of "b \<and> ws = []" "(\<lambda>_. [])(1 := ws)"]
    by (simp add: group_end_def record_group_def)
  with wsp hdg
  have "star_all (rmatch (Cls cls_s)) (group_end 1 (b, ?s, \<lambda>_. []) ?rest) (b, ?s, \<lambda>_. []) =
      Some (False, r, (\<lambda>_. [])(1 := ws, 2 := gtlt, 4 := M, 5 := m, 6 := p, 3 := ?v))"
    by (intro star_all_greedy) simp_all
  then have "rmatch (Grp 1 (Star (Cls cls_s))) ?rest (b, ?s, \<lambda>_. []) =
      Some (False, r, (\<lambda>_. [])(1 := ws, 2 := gtlt, 4 := M, 5 := m, 6 := p, 3 := ?v))"
    by simp
  then show ?thesis by (simp add: match_here_def COMPARATORTRIM_def)
qed

lemma Join_Cons: "Join (t # ts) = t @ concat (map ((#) CHR '' '') ts)"
  by (induction ts arbitrary: t) simp_all

lemma split_on_append: "d \<notin> set t \<Longrightarrow> split_on d acc (t @ r) = split_on d (rev t @ acc) r"
  by (induction t arbitrary: acc) auto

lemma split_on_words:
  "\<forall>t\<in>set ts. d \<notin> set t \<Longrightarrow> split_on d acc (concat (map ((#) d) ts)) = rev acc # ts"
  by (induction ts arbitrary: acc) (simp_all add: split_on_append)

lemma strings_Split_Join:
  assumes "ts \<noteq> []" "\<forall>t\<in>set ts. CHR '' '' \<notin> set t"
  shows "strings_Split (Join ts) = ts"
proof -
  from assms(1) obtain t ts' where ts: "ts = t # ts'" by (cases ts) auto
  with assms(2) show ?thesis
    by (simp add: strings_Split_def Join_Cons split_on_append split_on_words)
qed

lemma match_here_SPACES_stop: "\<not> cls_s a \<Longrightarrow> match_here SPACES b (a # s) = None"
  by (simp add: match_here_def SPACES_def)

lemma match_here_SPACES_space:
  assumes "s = [] \<or> \<not> cls_s (hd s)"
  shows "match_here SPACES b (CHR '' '' # s) = Some (False, s, \<lambda>_. [])"
proof -
  have "rmatch (Plus (Cls cls_s)) Some (b, '' '' @ s, \<lambda>_. []) = Some (False, s, \<lambda>_. [])"
    using assms by (intro rmatch_Plus_greedy) (simp_all add: cls_s_def)
  then show ?thesis by (simp add: match_here_def SPACES_def)
qed

lemma splitAll_SPACES_append:
  "list_all (\<lambda>x. \<not> cls_s x) t \<Longrightarrow>
   splitAll SPACES b acc (t @ r) = splitAll SPACES (b \<and> t = []) (rev t @ acc) r"
proof (induction t arbitrary: acc b)
  case Nil
  then show ?case by simp
next
  case (Cons a t)
  then have "splitAll SPACES b acc ((a # t) @ r) = splitAll SPACES False (a # acc) (t @ r)"
    by (subst splitAll.simps) (simp add: match_here_SPACES_stop)
  with Cons show ?case by simp
qed

lemma splitAll_SPACES_words:
  "\<forall>t\<in>set ts. t \<noteq> [] \<and> list_all (\<lambda>x. \<not> cls_s x) t \<Longrightarrow>
   splitAll SPACES b acc (concat (map ((#) CHR '' '') ts)) = rev acc # ts"
proof (induction ts arbitrary: acc b)
  case Nil
  then show ?case by (subst splitAll.simps) simp
next
  case (Cons t ts)
  let ?r = "concat (map ((#) CHR '' '') ts)"
  from Cons.prems have t: "t \<noteq> []" "list_all (\<lambda>x. \<not> cls_s x) t" by simp_all
  then have "\<not> cls_s (hd (t @ ?r))" by (cases t) simp_all
  then have "match_here SPACES b (CHR '' '' # t @ ?r) = Some (False, t @ ?r, \<lambda>_. [])"
    by (intro match_here_SPACES_space) simp
  then have "splitAll SPACES b acc (CHR '' '' # t @ ?r) = rev acc # splitAll SPACES False [] (t @ ?r)"
    by (subst splitAll.simps) simp
  also have "splitAll SPACES False [] (t @ ?r) = splitAll SPACES False (rev t) ?r"
    using t by (simp add: splitAll_SPACES_append)
  also have "\<dots> = t # ts" using Cons by simp
  finally show ?case by simp
qed

lemma Split_SPACES_Join:
  assumes "ts \<noteq> []" "\<forall>t\<in>set ts. t \<noteq> [] \<and> list_all (\<lambda>x. \<not> cls_s x) t"
  shows "Split SPACES (Join ts) = ts"
proof -
  from assms(1) obtain t ts' where ts: "ts = t # ts'" by (cases ts) auto
  with assms(2) have t: "t \<noteq> []" "list_all (\<lambda>x. \<not> cls_s x) t"
    and ts': "\<forall>t\<in>set ts'. t \<noteq> [] \<and> list_all (\<lambda>x. \<not> cls_s x) t"
    by simp_all
  show ?thesis
    unfolding Split_def ts Join_Cons
    using t by (simp add: splitAll_SPACES_append splitAll_SPACES_words [OF ts'])
qed

lemma match_here_COMPARATORTRIM_Nil: "match_here COMPARATORTRIM b [] = None"
  by (simp add: eval_defs)

lemma replaceAll_COMPARATORTRIM_tokens:
  "\<forall>tok\<in>set toks. canonical tok \<Longrightarrow>
   replaceAll COMPARATORTRIM (\<lambda>match. match 1 @ match 2 @ match 3) b after
     (concat (map (\<lambda>tok. CHR '' '' # comparatorText tok) toks)) =
   concat (map (\<lambda>tok. CHR '' '' # comparatorText tok) toks)"
proof (induction toks arbitrary: b after)
  case Nil
  then show ?case by (subst replaceAll.simps) (simp add: match_here_COMPARATORTRIM_Nil)
next
  case (Cons tok toks)
  let ?r = "concat (map (\<lambda>tok. CHR '' '' # comparatorText tok) toks)"
  obtain gtlt M m p where tok: "tok = (gtlt, M, m, p)" by (cases tok) auto
  with Cons.prems have can: "canonical (gtlt, M, m, p)" by simp
  have r: "?r = [] \<or> hd ?r = CHR '' ''" by (cases toks) simp_all
  have "match_here COMPARATORTRIM b ('' '' @ gtlt @ M @ ''.'' @ m @ ''.'' @ p @ ?r) =
    Some (False, ?r, (\<lambda>_. [])(1 := '' '', 2 := gtlt, 4 := M, 5 := m, 6 := p,
      3 := M @ ''.'' @ m @ ''.'' @ p))"
    using can _ r by (rule match_COMPARATORTRIM) simp
  then have "replaceAll COMPARATORTRIM (\<lambda>match. match 1 @ match 2 @ match 3) b after
      (CHR '' '' # comparatorText tok @ ?r) =
    (CHR '' '' # comparatorText tok) @
      replaceAll COMPARATORTRIM (\<lambda>match. match 1 @ match 2 @ match 3) False True ?r"
    by (subst replaceAll.simps) (simp add: tok comparatorText_def)
  with Cons show ?case by simp
qed

lemma ReplaceAllString_COMPARATORTRIM:
  assumes "toks \<noteq> []" "\<forall>tok\<in>set toks. canonical tok"
  shows "ReplaceAllString COMPARATORTRIM (\<lambda>match. match 1 @ match 2 @ match 3)
      (Join (map comparatorText toks)) = Join (map comparatorText toks)"
proof -
  from assms(1) obtain tok toks' where toks: "toks = tok # toks'" by (cases toks) auto
  let ?r = "concat (map (\<lambda>tok. CHR '' '' # comparatorText tok) toks')"
  obtain gtlt M m p where tok: "tok = (gtlt, M, m, p)" by (cases tok) auto
  with assms(2) toks have can: "canonical (gtlt, M, m, p)" and rest: "\<forall>tok\<in>set toks'. canonical tok"
    by simp_all
  have r: "?r = [] \<or> hd ?r = CHR '' ''" by (cases toks') simp_all
  have "match_here COMPARATORTRIM True ([] @ gtlt @ M @ ''.'' @ m @ ''.'' @ p @ ?r) =
    Some (False, ?r, (\<lambda>_. [])(1 := [], 2 := gtlt, 4 := M, 5 := m, 6 := p,
      3 := M @ ''.'' @ m @ ''.'' @ p))"
    using can _ r by (rule match_COMPARATORTRIM) simp
  moreover from can have "gtlt @ M @ ''.'' @ m @ ''.'' @ p @ ?r \<noteq> []"
    by (simp add: canonical_def numericIdentifier_head(1))
  ultimately have "replaceAll COMPARATORTRIM (\<lambda>match. match 1 @ match 2 @ match 3) True False
      (comparatorText tok @ ?r) =
    comparatorText tok @
      replaceAll COMPARATORTRIM (\<lambda>match. match 1 @ match 2 @ match 3) False True ?r"
    by (subst replaceAll.simps) (auto simp add: tok comparatorText_def)
  then have "replaceAll COMPARATORTRIM (\<lambda>match. match 1 @ match 2 @ match 3) True False
      (comparatorText tok @ ?r) = comparatorText tok @ ?r"
    by (simp only: replaceAll_COMPARATORTRIM_tokens [OF rest])
  moreover have "Join (map comparatorText toks) = comparatorText tok @ ?r"
    by (simp add: toks Join_Cons comp_def)
  ultimately show ?thesis
    by (simp only: ReplaceAllString_def)
qed

lemma canonChar_facts:
  assumes "canonChar x"
  shows "tokenChar x" "\<not> cls_s x" "x \<noteq> CHR '' ''" "x \<noteq> CHR ''-''" "x \<noteq> CHR ''~''"
    "x \<noteq> CHR ''^''" "x \<noteq> CHR ''*''"
  using assms
  by (auto simp: canonChar_def tokenChar_def cls_defs asciiSpace_def RuneSelf_def)

lemma not_canonChar:
  "\<not> canonChar CHR '' ''" "\<not> canonChar CHR ''-''" "\<not> canonChar CHR ''~''"
  "\<not> canonChar CHR ''^''" "\<not> canonChar CHR ''*''"
  by (simp_all add: canonChar_def cls_defs)

lemma canonChar_lacking:
  assumes "\<forall>x\<in>set t. canonChar x" "\<not> canonChar y"
  shows "y \<notin> set t"
  using assms by auto

lemma comparatorText_chars:
  assumes "canonical tok"
  shows "comparatorText tok \<noteq> []" "list_all canonChar (comparatorText tok)"
proof -
  obtain gtlt M m p where tok: "tok = (gtlt, M, m, p)" by (cases tok) auto
  with assms have g: "isOperator gtlt" and M: "numericIdentifier M" and m: "numericIdentifier m"
    and p: "numericIdentifier p"
    by (simp_all add: canonical_def)
  from g have "list_all canonChar gtlt" by (auto simp: isOperator_def canonChar_def)
  moreover have "list_all canonChar s" if "numericIdentifier s" for s
    using numericIdentifier_digits(2) [OF that] by (simp add: list_all_iff canonChar_def)
  ultimately show "list_all canonChar (comparatorText tok)"
    using M m p by (simp add: tok comparatorText_def canonChar_def)
  show "comparatorText tok \<noteq> []"
    using numericIdentifier_digits(1) [OF M] by (simp add: tok comparatorText_def)
qed

lemma Join_lacking:
  assumes "\<forall>t\<in>set ts. x \<notin> set t" "x \<noteq> CHR '' ''"
  shows "x \<notin> set (Join ts)"
proof (cases ts)
  case Nil
  then show ?thesis by simp
next
  case (Cons t ts')
  with assms show ?thesis by (auto simp: Join_Cons)
qed

lemma Join_ends:
  assumes "ts \<noteq> []" "\<forall>t\<in>set ts. t \<noteq> []"
  shows "Join ts \<noteq> []" "hd (Join ts) = hd (hd ts)" "last (Join ts) = last (last ts)"
  using assms by (induction ts rule: Join.induct) simp_all

lemma token_unchanged:
  assumes "canonical tok"
  shows "parseComparatorString U (comparatorText tok) = comparatorText tok"
proof -
  let ?t = "comparatorText tok"
  obtain gtlt M m p where tok: "tok = (gtlt, M, m, p)" by (cases tok) auto
  with assms have g: "isOperator gtlt" and M: "numericIdentifier M" and m: "numericIdentifier m"
    and p: "numericIdentifier p"
    by (simp_all add: canonical_def)
  note chars = comparatorText_chars [OF assms]
  have all: "\<forall>x\<in>set ?t. canonChar x" using chars(2) by (simp add: list_all_iff)
  have "canonChar (hd ?t)" "canonChar (last ?t)" using chars(1) all by simp_all
  then have trim: "TrimSpace U ?t = ?t"
    using chars(1) by (intro TrimSpace_id) (simp_all add: canonChar_facts(1))
  have "Split SPACES (Join [?t]) = [?t]"
    using chars all by (intro Split_SPACES_Join) (simp_all add: list_all_iff canonChar_facts(2))
  then have split: "Split SPACES ?t = [?t]" by simp
  have lacks: "CHR ''^'' \<notin> set ?t" "CHR ''~'' \<notin> set ?t" "CHR ''*'' \<notin> set ?t"
    by (rule canonChar_lacking [OF all not_canonChar(4)],
        rule canonChar_lacking [OF all not_canonChar(3)],
        rule canonChar_lacking [OF all not_canonChar(5)])
  have caret: "replaceCaret ?t = ?t"
    using FindStringSubmatch_lacking [of CARET "CHR ''^''" ?t] lang_has_char(5) lacks(1)
    by (simp add: replaceCaret_def)
  have tilde: "replaceTilde ?t = ?t"
    using FindStringSubmatch_lacking [of TILDE "CHR ''~''" ?t] lang_has_char(4) lacks(2)
    by (simp add: replaceTilde_def)
  have nx: "\<not> isX M" "\<not> isX m" "\<not> isX p"
    using numericIdentifier_digits [OF M] numericIdentifier_digits [OF m]
      numericIdentifier_digits [OF p]
    by (auto simp: isX_def cls_defs)
  have "xrangeOperand M m p []"
    using M m p numericIdentifier_digits(1) [OF m]
    by (simp add: xrangeOperand_def xrangeIdentifier_def)
  from FindStringSubmatch_XRANGE [OF this g]
  have "FindStringSubmatch XRANGE ?t =
      Some ((\<lambda>_. [])(1 := gtlt, 2 := M, 3 := m, 4 := p, 5 := [], 0 := ?t))"
    using numericIdentifier_digits(1) [OF m] numericIdentifier_digits(1) [OF p]
    by (simp add: xrangeText_def tok comparatorText_def)
  then have xrange: "replaceXRange ?t = ?t"
    using nx unfolding replaceXRange_def by (simp add: Let_def)
  have star: "ReplaceAllString STAR (\<lambda>match. ''>=0.0.0'') ?t = ?t"
    unfolding ReplaceAllString_def using lang_has_char(6) lacks(3) by (rule replaceAll_lacking)
  show ?thesis
    by (simp add: parseComparatorString_def replaceCarets_def replaceTildes_def
        replaceXRanges_def replaceStars_def trim split caret tilde xrange star)
qed

lemma parseRange_canonical:
  assumes "cs \<noteq> []" "\<forall>tok\<in>set cs. canonical tok"
  shows "parseRange U (Join (map comparatorText cs)) = map comparatorText cs"
proof -
  let ?ts = "map comparatorText cs"
  let ?s = "Join ?ts"
  have ne: "?ts \<noteq> []" using assms(1) by simp
  have chars: "\<forall>t\<in>set ?ts. t \<noteq> [] \<and> (\<forall>x\<in>set t. canonChar x)"
    using assms(2) comparatorText_chars by (auto simp: list_all_iff)
  then have nonempty: "\<forall>t\<in>set ?ts. t \<noteq> []" by blast
  have ends: "hd ?ts \<in> set ?ts" "last ?ts \<in> set ?ts"
    by (rule hd_in_set [OF ne], rule last_in_set [OF ne])
  have "canonChar (hd t)" "canonChar (last t)" if "t \<in> set ?ts" for t
    using chars that by auto
  from this [OF ends(1)] this [OF ends(2)]
  have "canonChar (hd (hd ?ts))" "canonChar (last (last ?ts))" by blast+
  then have "tokenChar (hd ?s)" "tokenChar (last ?s)"
    using Join_ends(2,3) [OF ne nonempty] by (simp_all add: canonChar_facts(1))
  with Join_ends(1) [OF ne nonempty] have trim: "TrimSpace U ?s = ?s" by (rule TrimSpace_id)
  have lack: "\<forall>t\<in>set ?ts. y \<notin> set t" if "\<not> canonChar y" for y
    using chars that by auto
  have lacks: "CHR ''-'' \<notin> set ?s" "CHR ''~'' \<notin> set ?s" "CHR ''^'' \<notin> set ?s"
    by (rule Join_lacking [OF lack [OF not_canonChar(2)]], simp,
        rule Join_lacking [OF lack [OF not_canonChar(3)]], simp,
        rule Join_lacking [OF lack [OF not_canonChar(4)]], simp)
  have hyphen: "hyphenReplace U ?s = ?s"
    using FindStringSubmatch_lacking [of HYPHENRANGE "CHR ''-''" ?s] lang_has_char(1) lacks(1)
    by (simp add: hyphenReplace_def)
  have comparator: "ReplaceAllString COMPARATORTRIM (\<lambda>match. match 1 @ match 2 @ match 3) ?s = ?s"
    using assms by (rule ReplaceAllString_COMPARATORTRIM)
  have tilde: "ReplaceAllString TILDETRIM (\<lambda>match. match 1 @ ''~'') ?s = ?s"
    unfolding ReplaceAllString_def using lang_has_char(2) lacks(2) by (rule replaceAll_lacking)
  have caret: "ReplaceAllString CARETTRIM (\<lambda>match. match 1 @ ''^'') ?s = ?s"
    unfolding ReplaceAllString_def using lang_has_char(3) lacks(3) by (rule replaceAll_lacking)
  have spaces: "Split SPACES ?s = ?ts"
    using ne chars by (intro Split_SPACES_Join) (auto simp: list_all_iff canonChar_facts(2))
  have "\<forall>t\<in>set ?ts. CHR '' '' \<notin> set t" by (rule lack [OF not_canonChar(1)])
  with ne have words: "strings_Split ?s = ?ts" by (rule strings_Split_Join)
  have tokens: "map (parseComparatorString U) ?ts = ?ts"
    using assms(2) by (simp add: token_unchanged)
  show ?thesis
    unfolding parseRange_def Let_def
    by (simp only: trim hyphen comparator tilde caret spaces words tokens)
qed

section \<open>The claims\<close>

subsection \<open>C1\<close>

text \<open>
  C1. For every range string that \<open>ParseRange\<close> parses successfully and every version,
  the resulting Range applied to the version returns true if and only if at least one
  OR-group (the parts between \<open>||\<close>) has every one of its comparators true of the
  version, where a comparator with operator \<open>""\<close>, \<open>=\<close> or \<open>==\<close> holds iff the comparison with
  the operand is 0, \<open>!\<close> or \<open>!=\<close> iff it is not 0, \<open>>\<close> iff it is 1, \<open>>=\<close> iff it is at
  least 0, \<open><\<close> iff it is -1 and \<open><=\<close> iff it is at most 0. In particular the range
  \<open>>1.0.0 <2.0.0 || >=3.0.0\<close> matches 1.1.1, 3.0.0 and 3.5.0 but not 1.0.0, 2.0.0 or 2.9.9.
\<close>

theorem ParseRange_matches:
  "(ParseRange U V raw = Inr r \<longrightarrow>
      call r x = Some (\<exists>g\<in>set (orGroups U raw). \<forall>t\<in>set g. comparatorTrue U V x t)) \<and>
   (\<exists>r. ParseRange U specVersion ''>1.0.0 <2.0.0 || >=3.0.0'' = Inr r \<and>
      call r (release 1 1 1) = Some True \<and> call r (release 3 0 0) = Some True \<and>
      call r (release 3 5 0) = Some True \<and> call r (release 1 0 0) = Some False \<and>
      call r (release 2 0 0) = Some False \<and> call r (release 2 9 9) = Some False)"
proof
  show "ParseRange U V raw = Inr r \<longrightarrow>
      call r x = Some (\<exists>g\<in>set (orGroups U raw). \<forall>t\<in>set g. comparatorTrue U V x t)"
    by (simp add: ParseRange_sem)
  show "\<exists>r. ParseRange U specVersion ''>1.0.0 <2.0.0 || >=3.0.0'' = Inr r \<and>
      call r (release 1 1 1) = Some True \<and> call r (release 3 0 0) = Some True \<and>
      call r (release 3 5 0) = Some True \<and> call r (release 1 0 0) = Some False \<and>
      call r (release 2 0 0) = Some False \<and> call r (release 2 9 9) = Some False"
    by (simp add: eval_defs cong: let_weak_cong)
qed

theorem ParseRange_matches_witness:
  "\<exists>r. ParseRange asciiOnly specVersion ''>1.0.0 <2.0.0'' = Inr r \<and>
     call r (release 1 5 0) =
       Some (\<exists>g\<in>set (orGroups asciiOnly ''>1.0.0 <2.0.0'').
               \<forall>t\<in>set g. comparatorTrue asciiOnly specVersion (release 1 5 0) t) \<and>
     call r (release 1 5 0) = Some True"
proof -
  have "\<exists>r. ParseRange asciiOnly specVersion ''>1.0.0 <2.0.0'' = Inr r \<and>
      call r (release 1 5 0) = Some True"
    by (simp add: eval_defs cong: let_weak_cong)
  then obtain r where r: "ParseRange asciiOnly specVersion ''>1.0.0 <2.0.0'' = Inr r"
    and t: "call r (release 1 5 0) = Some True"
    by blast
  from ParseRange_matches [of asciiOnly specVersion "''>1.0.0 <2.0.0''" r "release 1 5 0"] r t
  show ?thesis by blast
qed

subsection \<open>C6\<close>

text \<open>
  C6. For every input string, \<open>ParseRange\<close> returns an error (and no Range) whenever a
  normalized token has an operator other than \<open>""\<close>, \<open>=\<close>, \<open>==\<close>, \<open>!\<close>, \<open>!=\<close>, \<open>>\<close>, \<open>>=\<close>,
  \<open><\<close>, \<open><=\<close>, or a version that the Version parser cannot parse. In particular
  \<open>>=1.2.x.y\<close> and \<open>1.2.3 -\<close> both yield an error, never a partially built Range.

  A token in which no version is found at all, as the \<open>-\<close> of the second example, is among
  the rejected ones.
\<close>

theorem ParseRange_rejects:
  "((\<exists>g\<in>set (orGroups U s). \<exists>t\<in>set g. rejectedToken U V t) \<longrightarrow>
      (\<exists>e. ParseRange U V s = Inl e)) \<and>
   ParseRange U specVersion ''>=1.2.x.y'' =
     Inl (CouldNotParseRange ''>=1.2.x.y'' (CouldNotParseVersion ''1.2.x.y'' ''>=1.2.x.y'')) \<and>
   (\<exists>e. ParseRange U V ''1.2.3 -'' = Inl e) \<and>
   ParseRange U specVersion ''1.2.3 -'' = Inl (CouldNotGetVersion ''-'')"
proof (intro conjI impI)
  assume bad: "\<exists>g\<in>set (orGroups U s). \<exists>t\<in>set g. rejectedToken U V t"
  show "\<exists>e. ParseRange U V s = Inl e"
  proof (cases "ParseRange U V s")
    case (Inl e)
    then show ?thesis by simp
  next
    case (Inr r)
    then have "orLoop U V None (orGroups U s) = Inr r"
      by (simp add: ParseRange_orLoop)
    from orLoop_accepts [OF this] bad show ?thesis by blast
  qed
next
  show "ParseRange U specVersion ''>=1.2.x.y'' =
     Inl (CouldNotParseRange ''>=1.2.x.y'' (CouldNotParseVersion ''1.2.x.y'' ''>=1.2.x.y''))"
    by (simp add: eval_defs cong: let_weak_cong)
next
  show "\<exists>e. ParseRange U V ''1.2.3 -'' = Inl e"
    by (simp add: eval_defs cong: let_weak_cong split: option.splits)
next
  show "ParseRange U specVersion ''1.2.3 -'' = Inl (CouldNotGetVersion ''-'')"
    by (simp add: eval_defs cong: let_weak_cong)
qed

theorem ParseRange_rejects_witness:
  "orGroups asciiOnly ''1.2.3 -'' = [[''1.2.3'', ''-'']] \<and>
   rejectedToken asciiOnly specVersion ''-'' \<and>
   (\<exists>e. ParseRange asciiOnly specVersion ''1.2.3 -'' = Inl e) \<and>
   orGroups asciiOnly ''<1.0.0 >=1.2.x.y'' = [[''<1.0.0'', ''>=1.2.x.y'']] \<and>
   rejectedToken asciiOnly specVersion ''>=1.2.x.y'' \<and>
   (\<exists>e. ParseRange asciiOnly specVersion ''<1.0.0 >=1.2.x.y'' = Inl e) \<and>
   orGroups asciiOnly ''=>1.2.3'' = [[''=>1.2.3'']] \<and>
   rejectedToken asciiOnly specVersion ''=>1.2.3'' \<and>
   (\<exists>e. ParseRange asciiOnly specVersion ''=>1.2.3'' = Inl e)"
proof -
  have g1: "orGroups asciiOnly ''1.2.3 -'' = [[''1.2.3'', ''-'']]"
    by (simp add: orGroups_def eval_defs cong: let_weak_cong)
  have t1: "rejectedToken asciiOnly specVersion ''-''"
    by (simp add: rejectedToken_def knownOperator_def eval_defs cong: let_weak_cong)
  have g2: "orGroups asciiOnly ''<1.0.0 >=1.2.x.y'' = [[''<1.0.0'', ''>=1.2.x.y'']]"
    by (simp add: orGroups_def eval_defs cong: let_weak_cong)
  have t2: "rejectedToken asciiOnly specVersion ''>=1.2.x.y''"
    by (simp add: rejectedToken_def knownOperator_def eval_defs cong: let_weak_cong)
  have g3: "orGroups asciiOnly ''=>1.2.3'' = [[''=>1.2.3'']]"
    by (simp add: orGroups_def eval_defs cong: let_weak_cong)
  have t3: "rejectedToken asciiOnly specVersion ''=>1.2.3''"
    by (simp add: rejectedToken_def knownOperator_def eval_defs cong: let_weak_cong)
  have "\<exists>g\<in>set (orGroups asciiOnly ''1.2.3 -''). \<exists>t\<in>set g. rejectedToken asciiOnly specVersion t"
    using t1 by (simp only: g1) simp
  with ParseRange_rejects [of asciiOnly "''1.2.3 -''" specVersion]
  have e1: "\<exists>e. ParseRange asciiOnly specVersion ''1.2.3 -'' = Inl e" by blast
  have "\<exists>g\<in>set (orGroups asciiOnly ''<1.0.0 >=1.2.x.y''). \<exists>t\<in>set g.
      rejectedToken asciiOnly specVersion t"
    using t2 by (simp only: g2) simp
  with ParseRange_rejects [of asciiOnly "''<1.0.0 >=1.2.x.y''" specVersion]
  have e2: "\<exists>e. ParseRange asciiOnly specVersion ''<1.0.0 >=1.2.x.y'' = Inl e" by blast
  have "\<exists>g\<in>set (orGroups asciiOnly ''=>1.2.3''). \<exists>t\<in>set g. rejectedToken asciiOnly specVersion t"
    using t3 by (simp only: g3) simp
  with ParseRange_rejects [of asciiOnly "''=>1.2.3''" specVersion]
  have e3: "\<exists>e. ParseRange asciiOnly specVersion ''=>1.2.3'' = Inl e" by blast
  from g1 t1 e1 g2 t2 e2 g3 t3 e3 show ?thesis by (intro conjI)
qed

subsection \<open>C10\<close>

text \<open>
  C10. For every input string, \<open>ParseRange\<close> returns exactly one of a non-nil Range or a
  non-nil error, never both nil: splitting at \<open>||\<close> always yields at least one part, each
  part normalizes to at least one token, and every token either fails with an error or
  contributes a comparator, so a return without error always carries a usable Range (one
  that can be called on every version).
\<close>

theorem ParseRange_never_nil:
  "Split ORSEP s \<noteq> [] \<and> parseRange U part \<noteq> [] \<and>
   (ts \<noteq> [] \<longrightarrow> andLoop U V None ts \<noteq> Inr None) \<and>
   ParseRange U V s \<noteq> Inr None \<and>
   ((\<exists>e. ParseRange U V s = Inl e) \<or>
    (\<exists>f. ParseRange U V s = Inr (Some f) \<and> (\<forall>x. f x \<noteq> None)))"
proof (intro conjI impI)
  show "Split ORSEP s \<noteq> []" by (rule Split_nonempty)
  show "parseRange U part \<noteq> []" by (rule parseRange_nonempty)
  show "andLoop U V None ts \<noteq> Inr None" if "ts \<noteq> []"
  proof
    assume "andLoop U V None ts = Inr None"
    from andLoop_sem [OF this, of "\<lambda>_. True" undefined] that show False
      by (simp add: call_def)
  qed
  have usable: "\<exists>f. r = Some f \<and> (\<forall>x. f x \<noteq> None)" if "ParseRange U V s = Inr r" for r
  proof (cases r)
    case None
    with ParseRange_sem [OF that, of undefined] show ?thesis by (simp add: call_def)
  next
    case (Some f)
    with ParseRange_sem [OF that] show ?thesis by (simp add: call_def)
  qed
  then show "ParseRange U V s \<noteq> Inr None" by blast
  show "(\<exists>e. ParseRange U V s = Inl e) \<or>
    (\<exists>f. ParseRange U V s = Inr (Some f) \<and> (\<forall>x. f x \<noteq> None))"
    using usable by (cases "ParseRange U V s") auto
qed

theorem ParseRange_never_nil_witness:
  "[''>=1.0.0''] \<noteq> [] \<and> andLoop asciiOnly specVersion None [''>=1.0.0''] \<noteq> Inr None \<and>
   (\<exists>f. ParseRange asciiOnly specVersion ''>=1.0.0'' = Inr (Some f) \<and> (\<forall>x. f x \<noteq> None))"
proof -
  have "\<forall>e. ParseRange asciiOnly specVersion ''>=1.0.0'' \<noteq> Inl e"
    by (simp add: eval_defs cong: let_weak_cong)
  with ParseRange_never_nil [of "''>=1.0.0''" asciiOnly "''>=1.0.0''" "[''>=1.0.0'']" specVersion]
  show ?thesis by blast
qed

subsection \<open>C9\<close>

text \<open>
  C9. Every wildcard expansion that increments a numeric component (in hyphen, tilde,
  caret and x-range rewriting) is exact at least up to the native unsigned integer range,
  and an increment that would exceed the representable range is reported as an error
  rather than wrapping around or producing a wrong bound.

  The code does otherwise: the component is read with \<open>strconv.Atoi\<close>, whose error is
  dropped, and incremented as an \<open>int\<close>. At \<open>2^63 - 1\<close>, which is inside the unsigned
  range, the increment wraps around to \<open>-2^63\<close>, a larger component is first cut down to
  \<open>2^63 - 1\<close>, and each of the four rewritings returns the wrong bound as if nothing
  had happened. (\<open>ParseRange\<close> then fails on the minus sign, with an error about the
  comparator \<open><-\<close>.)
\<close>

theorem increment_wraps_around:
  "replaceCaret ''^9223372036854775807'' =
     ''>=9223372036854775807.0.0 <-9223372036854775808.0.0'' \<and>
   replaceCaret ''^18446744073709551615'' =
     ''>=18446744073709551615.0.0 <-9223372036854775808.0.0'' \<and>
   replaceTilde ''~1.9223372036854775807'' =
     ''>=1.9223372036854775807.0 <1.-9223372036854775808.0'' \<and>
   replaceXRange ''>9223372036854775807'' = ''>=-9223372036854775808.0.0'' \<and>
   hyphenReplace U ''1 - 9223372036854775807'' = ''>=1.0.0 <-9223372036854775808.0.0'' \<and>
   parseVersion ''9223372036854775808.0.0'' = Some (release 9223372036854775808 0 0) \<and>
   ParseRange U specVersion ''^9223372036854775807'' =
     Inl (CouldNotParseRange ''<-9223372036854775808.0.0''
       (CouldNotParseComparator ''<-'' ''<-9223372036854775808.0.0''))"
proof (intro conjI)
  show "replaceCaret ''^9223372036854775807'' =
     ''>=9223372036854775807.0.0 <-9223372036854775808.0.0''"
    by (simp add: eval_defs cong: let_weak_cong)
  show "replaceCaret ''^18446744073709551615'' =
     ''>=18446744073709551615.0.0 <-9223372036854775808.0.0''"
    by (simp add: eval_defs cong: let_weak_cong)
  show "replaceTilde ''~1.9223372036854775807'' =
     ''>=1.9223372036854775807.0 <1.-9223372036854775808.0''"
    by (simp add: eval_defs cong: let_weak_cong)
  show "replaceXRange ''>9223372036854775807'' = ''>=-9223372036854775808.0.0''"
    by (simp add: eval_defs cong: let_weak_cong)
  show "hyphenReplace U ''1 - 9223372036854775807'' = ''>=1.0.0 <-9223372036854775808.0.0''"
    by (simp add: eval_defs cong: let_weak_cong)
  show "parseVersion ''9223372036854775808.0.0'' = Some (release 9223372036854775808 0 0)"
    by (simp add: eval_defs cong: let_weak_cong)
  show "ParseRange U specVersion ''^9223372036854775807'' =
     Inl (CouldNotParseRange ''<-9223372036854775808.0.0''
       (CouldNotParseComparator ''<-'' ''<-9223372036854775808.0.0''))"
    by (simp add: eval_defs cong: let_weak_cong)
qed

subsection \<open>C7\<close>

text \<open>
  C7. For each of the wildcard-only segments \<open>x\<close>, \<open>*\<close> and the empty string, \<open>ParseRange\<close>
  produces an AND-group that is true of every version.

  The comments of the source say as much: a star range allows anything at all, for a
  wildcard major nothing is forbidden, \<open>x.x\<close> means any version, and the empty comparator
  indicates any version. The code rewrites \<open>x\<close> and \<open>*\<close> to the single comparator
  \<open>>=0.0.0\<close>, which is true of the versions that compare at least equal to 0.0.0, among
  them every version without a prerelease (the first parts of the theorem). It is false
  of a prerelease of 0.0.0, and the empty string is rejected with an error, for want of
  a digit in its one empty token (the last parts).
\<close>

theorem wildcard_segments:
  "orGroups U ''x'' = [[''>=0.0.0'']] \<and> orGroups U ''*'' = [[''>=0.0.0'']] \<and>
   (Parse V ''0.0.0'' = Some z \<longrightarrow>
      matches U V ''x'' x = Some (0 \<le> Compare V x z) \<and>
      matches U V ''*'' x = Some (0 \<le> Compare V x z)) \<and>
   matches U specVersion ''x'' (release a b d) = Some True \<and>
   matches U specVersion ''*'' (release a b d) = Some True \<and>
   parseVersion ''0.0.0-alpha'' =
     Some \<lparr>major = 0, minor = 0, patch = 0, prerelease = [Alphanumeric ''alpha''], build = []\<rparr> \<and>
   matches U specVersion ''x''
     \<lparr>major = 0, minor = 0, patch = 0, prerelease = [Alphanumeric ''alpha''], build = []\<rparr> =
     Some False \<and>
   matches U specVersion ''*''
     \<lparr>major = 0, minor = 0, patch = 0, prerelease = [Alphanumeric ''alpha''], build = []\<rparr> =
     Some False \<and>
   orGroups U [] = [[[]]] \<and>
   ParseRange U V [] = Inl (CouldNotGetVersion []) \<and>
   matches U V [] x = None"
proof (intro conjI impI)
  show "orGroups U ''x'' = [[''>=0.0.0'']]"
    by (simp add: orGroups_def eval_defs cong: let_weak_cong)
  show "orGroups U ''*'' = [[''>=0.0.0'']]"
    by (simp add: orGroups_def eval_defs cong: let_weak_cong)
  show "matches U V ''x'' x = Some (0 \<le> Compare V x z)" if "Parse V ''0.0.0'' = Some z"
    using that by (simp add: eval_defs cong: let_weak_cong)
  show "matches U V ''*'' x = Some (0 \<le> Compare V x z)" if "Parse V ''0.0.0'' = Some z"
    using that by (simp add: eval_defs cong: let_weak_cong)
  show "matches U specVersion ''x'' (release a b d) = Some True"
    by (simp add: eval_defs cong: let_weak_cong)
  show "matches U specVersion ''*'' (release a b d) = Some True"
    by (simp add: eval_defs cong: let_weak_cong)
  show "parseVersion ''0.0.0-alpha'' =
     Some \<lparr>major = 0, minor = 0, patch = 0, prerelease = [Alphanumeric ''alpha''], build = []\<rparr>"
    by (simp add: eval_defs cong: let_weak_cong)
  show "matches U specVersion ''x''
     \<lparr>major = 0, minor = 0, patch = 0, prerelease = [Alphanumeric ''alpha''], build = []\<rparr> =
     Some False"
    by (simp add: eval_defs cong: let_weak_cong)
  show "matches U specVersion ''*''
     \<lparr>major = 0, minor = 0, patch = 0, prerelease = [Alphanumeric ''alpha''], build = []\<rparr> =
     Some False"
    by (simp add: eval_defs cong: let_weak_cong)
  show "orGroups U [] = [[[]]]"
    by (simp add: orGroups_def eval_defs cong: let_weak_cong)
  show "ParseRange U V [] = Inl (CouldNotGetVersion [])"
    by (simp add: eval_defs cong: let_weak_cong)
  show "matches U V [] x = None"
    by (simp add: eval_defs cong: let_weak_cong)
qed

theorem wildcard_segments_witness:
  "Parse specVersion ''0.0.0'' = Some (release 0 0 0) \<and>
   matches asciiOnly specVersion ''x'' (release 1 2 3) =
     Some (0 \<le> Compare specVersion (release 1 2 3) (release 0 0 0)) \<and>
   matches asciiOnly specVersion ''*'' (release 1 2 3) =
     Some (0 \<le> Compare specVersion (release 1 2 3) (release 0 0 0)) \<and>
   Compare specVersion (release 1 2 3) (release 0 0 0) = 1"
proof -
  have p: "Parse specVersion ''0.0.0'' = Some (release 0 0 0)"
    by (simp add: eval_defs cong: let_weak_cong)
  have q: "Compare specVersion (release 1 2 3) (release 0 0 0) = 1"
    by (simp add: version_defs)
  from wildcard_segments [where U = asciiOnly and V = specVersion and z = "release 0 0 0"
      and x = "release 1 2 3"] p q
  show ?thesis by blast
qed

subsection \<open>C2\<close>

text \<open>
  C2. For every segment of the form \<open>A - B\<close> with x-range operands \<open>A\<close> and \<open>B\<close>, hyphen
  expansion produces the lower bound of \<open>A\<close> followed by the upper bound of \<open>B\<close>. The
  lower bound is dropped if the major of \<open>A\<close> is a wildcard, is \<open>>=M.0.0\<close> if its minor
  is a wildcard, \<open>>=M.m.0\<close> if its patch is a wildcard, else \<open>>=\<close> plus \<open>A\<close> literally.
  The upper bound is dropped if the major of \<open>B\<close> is a wildcard, is \<open><(M+1).0.0\<close> if
  its minor is a wildcard, \<open><M.(m+1).0\<close> if its patch is a wildcard, \<open><=\<close> plus \<open>B\<close> with
  its prerelease if it has one, else \<open><=\<close> plus \<open>B\<close> literally. In particular
  \<open>1.2 - 3.4.5\<close> becomes \<open>>=1.2.0 <=3.4.5\<close>, \<open>1.2.3 - 3.4\<close> becomes \<open>>=1.2.3 <3.5.0\<close> and
  \<open>1.2 - 3.4\<close> becomes \<open>>=1.2.0 <3.5.0\<close>.

  The code does so whenever the incremented component of \<open>B\<close> is below \<open>2^63 - 1\<close> (the
  first part of the theorem). At \<open>2^63 - 1\<close> the increment wraps around: the last two parts
  are the bounds that the claim gives for \<open>1 - 9223372036854775807\<close>, and what the code
  returns.
\<close>

theorem hyphen_expansion:
  "(xrangeOperand fM fm fp fpr \<and> xrangeOperand tM tm tp tpr \<and> bounded tM \<and> bounded tm \<longrightarrow>
      hyphenReplace U (xrangeText fM fm fp fpr @ '' - '' @ xrangeText tM tm tp tpr) =
        joinBounds (lowerBound fM fm fp fpr) (upperBound tM tm tp tpr)) \<and>
   hyphenReplace U ''1.2 - 3.4.5'' = ''>=1.2.0 <=3.4.5'' \<and>
   hyphenReplace U ''1.2.3 - 3.4'' = ''>=1.2.3 <3.5.0'' \<and>
   hyphenReplace U ''1.2 - 3.4'' = ''>=1.2.0 <3.5.0'' \<and>
   xrangeOperand ''1'' [] [] [] \<and> xrangeOperand ''9223372036854775807'' [] [] [] \<and>
   joinBounds (lowerBound ''1'' [] [] []) (upperBound ''9223372036854775807'' [] [] []) =
     ''>=1.0.0 <9223372036854775808.0.0'' \<and>
   hyphenReplace U ''1 - 9223372036854775807'' = ''>=1.0.0 <-9223372036854775808.0.0''"
proof (intro conjI impI)
  show "hyphenReplace U (xrangeText fM fm fp fpr @ '' - '' @ xrangeText tM tm tp tpr) =
      joinBounds (lowerBound fM fm fp fpr) (upperBound tM tm tp tpr)"
    if "xrangeOperand fM fm fp fpr \<and> xrangeOperand tM tm tp tpr \<and> bounded tM \<and> bounded tm"
    using that by (intro hyphenReplace_expansion) simp_all
  show "hyphenReplace U ''1.2 - 3.4.5'' = ''>=1.2.0 <=3.4.5''"
    by (simp add: eval_defs cong: let_weak_cong)
  show "hyphenReplace U ''1.2.3 - 3.4'' = ''>=1.2.3 <3.5.0''"
    by (simp add: eval_defs cong: let_weak_cong)
  show "hyphenReplace U ''1.2 - 3.4'' = ''>=1.2.0 <3.5.0''"
    by (simp add: eval_defs cong: let_weak_cong)
  show "xrangeOperand ''1'' [] [] []"
    by (simp add: operand_defs cls_defs)
  show "xrangeOperand ''9223372036854775807'' [] [] []"
    by (simp add: operand_defs cls_defs)
  show "joinBounds (lowerBound ''1'' [] [] []) (upperBound ''9223372036854775807'' [] [] []) =
     ''>=1.0.0 <9223372036854775808.0.0''"
    by (simp add: joinBounds_def lowerBound_def upperBound_def operand_defs digit_val_def
        byte_def showNat.simps digit_char_def)
  show "hyphenReplace U ''1 - 9223372036854775807'' = ''>=1.0.0 <-9223372036854775808.0.0''"
    by (simp add: eval_defs cong: let_weak_cong)
qed

theorem hyphen_expansion_witness:
  "xrangeOperand ''1'' ''2'' ''3'' ''rc.1'' \<and> xrangeOperand ''2'' ''x'' [] [] \<and>
   bounded ''2'' \<and> bounded ''x'' \<and>
   hyphenReplace asciiOnly ''1.2.3-rc.1 - 2.x'' =
     joinBounds (lowerBound ''1'' ''2'' ''3'' ''rc.1'') (upperBound ''2'' ''x'' [] []) \<and>
   joinBounds (lowerBound ''1'' ''2'' ''3'' ''rc.1'') (upperBound ''2'' ''x'' [] []) =
     ''>=1.2.3-rc.1 <3.0.0''"
proof -
  have h: "xrangeOperand ''1'' ''2'' ''3'' ''rc.1'' \<and> xrangeOperand ''2'' ''x'' [] [] \<and>
      bounded ''2'' \<and> bounded ''x''"
    by (simp add: operand_defs eval_defs)
  have e: "joinBounds (lowerBound ''1'' ''2'' ''3'' ''rc.1'') (upperBound ''2'' ''x'' [] []) =
      ''>=1.2.3-rc.1 <3.0.0''"
    by (simp add: joinBounds_def lowerBound_def upperBound_def operand_defs eval_defs)
  from hyphen_expansion [of "''1''" "''2''" "''3''" "''rc.1''" "''2''" "''x''" "[]" "[]" asciiOnly]
    h e
  show ?thesis by (simp add: xrangeText_def)
qed

subsection \<open>C3\<close>

text \<open>
  C3. For every caret token \<open>^M.m.p[-pr]\<close>, caret expansion yields: nothing
  (unconstrained) when the major is a wildcard; \<open>>=M.0.0 <(M+1).0.0\<close> when the minor is a
  wildcard; when only the patch is a wildcard, \<open>>=M.m.0 <M.(m+1).0\<close> if \<open>M\<close> is 0, else
  \<open>>=M.m.0 <(M+1).0.0\<close>; when fully specified (the prerelease kept in the lower bound if
  present), the upper bound is \<open><M.(m+1).0\<close> if \<open>M\<close> is 0 and \<open>m\<close> is not,
  \<open><M.m.(p+1)\<close> if both are 0, else \<open><(M+1).0.0\<close>. In particular \<open>^1.2.3\<close> becomes
  \<open>>=1.2.3 <2.0.0\<close>, \<open>^0.2.3\<close> becomes \<open>>=0.2.3 <0.3.0\<close> and \<open>^0.0.3\<close> becomes
  \<open>>=0.0.3 <0.0.4\<close>.

  The code does so whenever the components are below \<open>2^63 - 1\<close> (the first part of the
  theorem). At \<open>2^63 - 1\<close> the increment wraps around: the last two parts are the expansion
  that the claim gives for \<open>^9223372036854775807\<close>, and what the code returns.
\<close>

theorem caret_expansion:
  "(xrangeOperand M m p pr \<and> bounded M \<and> bounded m \<and> bounded p \<longrightarrow>
      replaceCaret (CHR ''^'' # xrangeText M m p pr) = caretExpansion M m p pr) \<and>
   replaceCaret ''^1.2.3'' = ''>=1.2.3 <2.0.0'' \<and>
   replaceCaret ''^0.2.3'' = ''>=0.2.3 <0.3.0'' \<and>
   replaceCaret ''^0.0.3'' = ''>=0.0.3 <0.0.4'' \<and>
   xrangeOperand ''9223372036854775807'' [] [] [] \<and>
   caretExpansion ''9223372036854775807'' [] [] [] =
     ''>=9223372036854775807.0.0 <9223372036854775808.0.0'' \<and>
   replaceCaret ''^9223372036854775807'' =
     ''>=9223372036854775807.0.0 <-9223372036854775808.0.0''"
proof (intro conjI impI)
  show "replaceCaret (CHR ''^'' # xrangeText M m p pr) = caretExpansion M m p pr"
    if "xrangeOperand M m p pr \<and> bounded M \<and> bounded m \<and> bounded p"
    using that by (intro replaceCaret_expansion) simp_all
  show "replaceCaret ''^1.2.3'' = ''>=1.2.3 <2.0.0''"
    by (simp add: eval_defs cong: let_weak_cong)
  show "replaceCaret ''^0.2.3'' = ''>=0.2.3 <0.3.0''"
    by (simp add: eval_defs cong: let_weak_cong)
  show "replaceCaret ''^0.0.3'' = ''>=0.0.3 <0.0.4''"
    by (simp add: eval_defs cong: let_weak_cong)
  show "xrangeOperand ''9223372036854775807'' [] [] []"
    by (simp add: operand_defs cls_defs)
  show "caretExpansion ''9223372036854775807'' [] [] [] =
     ''>=9223372036854775807.0.0 <9223372036854775808.0.0''"
    by (simp add: caretExpansion_def operand_defs digit_val_def byte_def showNat.simps
        digit_char_def)
  show "replaceCaret ''^9223372036854775807'' =
     ''>=9223372036854775807.0.0 <-9223372036854775808.0.0''"
    by (simp add: eval_defs cong: let_weak_cong)
qed

theorem caret_expansion_witness:
  "xrangeOperand ''0'' ''2'' ''3'' ''beta.1'' \<and> bounded ''0'' \<and> bounded ''2'' \<and> bounded ''3'' \<and>
   replaceCaret ''^0.2.3-beta.1'' = caretExpansion ''0'' ''2'' ''3'' ''beta.1'' \<and>
   caretExpansion ''0'' ''2'' ''3'' ''beta.1'' = ''>=0.2.3-beta.1 <0.3.0''"
proof -
  have h: "xrangeOperand ''0'' ''2'' ''3'' ''beta.1'' \<and> bounded ''0'' \<and> bounded ''2'' \<and> bounded ''3''"
    by (simp add: operand_defs eval_defs)
  have e: "caretExpansion ''0'' ''2'' ''3'' ''beta.1'' = ''>=0.2.3-beta.1 <0.3.0''"
    by (simp add: caretExpansion_def operand_defs eval_defs)
  from caret_expansion [of "''0''" "''2''" "''3''" "''beta.1''"] h e
  show ?thesis by (simp add: xrangeText_def)
qed

subsection \<open>C4\<close>

text \<open>
  C4. For every tilde token \<open>~M[.m[.p[-pr]]]\<close> (also spelled \<open>~>\<close>), tilde expansion yields:
  nothing (unconstrained) when the major is a wildcard; \<open>>=M.0.0 <(M+1).0.0\<close> when the
  minor is a wildcard; \<open>>=M.m.0 <M.(m+1).0\<close> when only the patch is a wildcard; and
  \<open>>=M.m.p[-pr] <M.(m+1).0\<close> when fully specified, with or without prerelease. In
  particular \<open>~1.2.3\<close> becomes \<open>>=1.2.3 <1.3.0\<close>, \<open>~1.2\<close> becomes \<open>>=1.2.0 <1.3.0\<close> and
  \<open>~0\<close> becomes \<open>>=0.0.0 <1.0.0\<close>.

  The code does so whenever major and minor are below \<open>2^63 - 1\<close> (the first part of the
  theorem). At \<open>2^63 - 1\<close> the increment wraps around: the last two parts are the expansion
  that the claim gives for \<open>~1.9223372036854775807\<close>, and what the code returns.
\<close>

theorem tilde_expansion:
  "(xrangeOperand M m p pr \<and> bounded M \<and> bounded m \<and> (tilde = ''~'' \<or> tilde = ''~>'') \<longrightarrow>
      replaceTilde (tilde @ xrangeText M m p pr) = tildeExpansion M m p pr) \<and>
   replaceTilde ''~1.2.3'' = ''>=1.2.3 <1.3.0'' \<and>
   replaceTilde ''~1.2'' = ''>=1.2.0 <1.3.0'' \<and>
   replaceTilde ''~0'' = ''>=0.0.0 <1.0.0'' \<and>
   xrangeOperand ''1'' ''9223372036854775807'' [] [] \<and>
   tildeExpansion ''1'' ''9223372036854775807'' [] [] =
     ''>=1.9223372036854775807.0 <1.9223372036854775808.0'' \<and>
   replaceTilde ''~1.9223372036854775807'' =
     ''>=1.9223372036854775807.0 <1.-9223372036854775808.0''"
proof (intro conjI impI)
  show "replaceTilde (tilde @ xrangeText M m p pr) = tildeExpansion M m p pr"
    if "xrangeOperand M m p pr \<and> bounded M \<and> bounded m \<and> (tilde = ''~'' \<or> tilde = ''~>'')"
    using that by (intro replaceTilde_expansion) simp_all
  show "replaceTilde ''~1.2.3'' = ''>=1.2.3 <1.3.0''"
    by (simp add: eval_defs cong: let_weak_cong)
  show "replaceTilde ''~1.2'' = ''>=1.2.0 <1.3.0''"
    by (simp add: eval_defs cong: let_weak_cong)
  show "replaceTilde ''~0'' = ''>=0.0.0 <1.0.0''"
    by (simp add: eval_defs cong: let_weak_cong)
  show "xrangeOperand ''1'' ''9223372036854775807'' [] []"
    by (simp add: operand_defs cls_defs)
  show "tildeExpansion ''1'' ''9223372036854775807'' [] [] =
     ''>=1.9223372036854775807.0 <1.9223372036854775808.0''"
    by (simp add: tildeExpansion_def operand_defs digit_val_def byte_def showNat.simps
        digit_char_def)
  show "replaceTilde ''~1.9223372036854775807'' =
     ''>=1.9223372036854775807.0 <1.-9223372036854775808.0''"
    by (simp add: eval_defs cong: let_weak_cong)
qed

theorem tilde_expansion_witness:
  "xrangeOperand ''1'' ''2'' ''3'' ''alpha'' \<and> bounded ''1'' \<and> bounded ''2'' \<and>
   replaceTilde ''~>1.2.3-alpha'' = tildeExpansion ''1'' ''2'' ''3'' ''alpha'' \<and>
   tildeExpansion ''1'' ''2'' ''3'' ''alpha'' = ''>=1.2.3-alpha <1.3.0''"
proof -
  have h: "xrangeOperand ''1'' ''2'' ''3'' ''alpha'' \<and> bounded ''1'' \<and> bounded ''2''"
    by (simp add: operand_defs eval_defs)
  have e: "tildeExpansion ''1'' ''2'' ''3'' ''alpha'' = ''>=1.2.3-alpha <1.3.0''"
    by (simp add: tildeExpansion_def operand_defs eval_defs)
  from tilde_expansion [of "''1''" "''2''" "''3''" "''alpha''" "''~>''"] h e
  show ?thesis by (simp add: xrangeText_def)
qed

subsection \<open>C5\<close>

text \<open>
  C5. For every x-range token \<open><gtlt>M[.m[.p]]\<close> with at least one wildcard position: if
  the major is a wildcard the result is \<open><0.0.0\<close> when the operator is \<open>>\<close> or \<open><\<close> and \<open>*\<close>
  otherwise; an operator \<open>=\<close> on a wildcarded form is treated as no operator; with the
  operator \<open>>\<close> and a wildcard in minor or patch the result is \<open>>=\<close> of the next unit up
  (\<open>>1.2.x\<close> becomes \<open>>=1.3.0\<close>, \<open>>1\<close> becomes \<open>>=2.0.0\<close>); with \<open><=\<close> it becomes \<open><\<close> of the
  next unit up (\<open><=1.2.x\<close> becomes \<open><1.3.0\<close>); with no operator, a minor wildcard yields
  \<open>>=M.0.0 <(M+1).0.0\<close> and a patch-only wildcard yields \<open>>=M.m.0 <M.(m+1).0\<close>.

  The code does so whenever major and minor are below \<open>2^63 - 1\<close> (the first part of the
  theorem). At \<open>2^63 - 1\<close> the increment wraps around: the last two parts are the expansion
  that the claim gives for \<open>>9223372036854775807\<close>, and what the code returns.
\<close>

theorem xrange_expansion:
  "(xrangeOperand M m p [] \<and> isOperator gtlt \<and>
    (isWildcard M \<or> isWildcard m \<or> isWildcard p) \<and>
    (isWildcard M \<or> gtlt = [] \<or> gtlt = ''='' \<or> gtlt = ''>'' \<or> gtlt = ''<='') \<and>
    bounded M \<and> bounded m \<longrightarrow>
      replaceXRange (gtlt @ xrangeText M m p []) = xrangeExpansion gtlt M m p) \<and>
   replaceXRange ''>1.2.x'' = ''>=1.3.0'' \<and>
   replaceXRange ''>1'' = ''>=2.0.0'' \<and>
   replaceXRange ''<=1.2.x'' = ''<1.3.0'' \<and>
   xrangeOperand ''9223372036854775807'' [] [] [] \<and>
   xrangeExpansion ''>'' ''9223372036854775807'' [] [] = ''>=9223372036854775808.0.0'' \<and>
   replaceXRange ''>9223372036854775807'' = ''>=-9223372036854775808.0.0''"
proof (intro conjI impI)
  show "replaceXRange (gtlt @ xrangeText M m p []) = xrangeExpansion gtlt M m p"
    if "xrangeOperand M m p [] \<and> isOperator gtlt \<and>
      (isWildcard M \<or> isWildcard m \<or> isWildcard p) \<and>
      (isWildcard M \<or> gtlt = [] \<or> gtlt = ''='' \<or> gtlt = ''>'' \<or> gtlt = ''<='') \<and>
      bounded M \<and> bounded m"
    using that by (intro replaceXRange_expansion) simp_all
  show "replaceXRange ''>1.2.x'' = ''>=1.3.0''"
    by (simp add: eval_defs cong: let_weak_cong)
  show "replaceXRange ''>1'' = ''>=2.0.0''"
    by (simp add: eval_defs cong: let_weak_cong)
  show "replaceXRange ''<=1.2.x'' = ''<1.3.0''"
    by (simp add: eval_defs cong: let_weak_cong)
  show "xrangeOperand ''9223372036854775807'' [] [] []"
    by (simp add: operand_defs cls_defs)
  show "xrangeExpansion ''>'' ''9223372036854775807'' [] [] = ''>=9223372036854775808.0.0''"
    by (simp add: xrangeExpansion_def operand_defs digit_val_def byte_def showNat.simps
        digit_char_def)
  show "replaceXRange ''>9223372036854775807'' = ''>=-9223372036854775808.0.0''"
    by (simp add: eval_defs cong: let_weak_cong)
qed

theorem xrange_expansion_witness:
  "xrangeOperand ''1'' ''2'' ''*'' [] \<and> isOperator ''<='' \<and> isWildcard ''*'' \<and>
   bounded ''1'' \<and> bounded ''2'' \<and>
   replaceXRange ''<=1.2.*'' = xrangeExpansion ''<='' ''1'' ''2'' ''*'' \<and>
   xrangeExpansion ''<='' ''1'' ''2'' ''*'' = ''<1.3.0''"
proof -
  have h: "xrangeOperand ''1'' ''2'' ''*'' [] \<and> isOperator ''<='' \<and> isWildcard ''*'' \<and>
      bounded ''1'' \<and> bounded ''2''"
    by (simp add: operand_defs eval_defs)
  have e: "xrangeExpansion ''<='' ''1'' ''2'' ''*'' = ''<1.3.0''"
    by (simp add: xrangeExpansion_def operand_defs eval_defs)
  from xrange_expansion [of "''1''" "''2''" "''*''" "''<=''"] h e
  show ?thesis by (simp add: xrangeText_def)
qed

subsection \<open>C8\<close>

text \<open>
  C8. Normalization is idempotent on canonical input: for every already-canonical token
  sequence, that is a space-separated string of tokens each made of one of the operators
  \<open>>=\<close>, \<open><=\<close>, \<open>>\<close>, \<open><\<close>, \<open>=\<close> (or no operator) followed by a fully specified \<open>M.m.p\<close>
  version, \<open>parseRange\<close> returns exactly that token sequence unchanged.

  The tokens are the texts of \<open>cs\<close>, a sequence of at least one token, and the string is
  these texts with single spaces between them.
\<close>

theorem parseRange_idempotent:
  assumes "cs \<noteq> []" and "\<forall>tok\<in>set cs. canonical tok"
  shows "parseRange U (Join (map comparatorText cs)) = map comparatorText cs"
  using assms by (rule parseRange_canonical)

theorem parseRange_idempotent_witness:
  "canonical (''>='', ''1'', ''2'', ''3'') \<and> canonical (''<'', ''2'', ''0'', ''0'') \<and>
   canonical ([], ''10'', ''0'', ''7'') \<and>
   parseRange asciiOnly ''>=1.2.3 <2.0.0 10.0.7'' = [''>=1.2.3'', ''<2.0.0'', ''10.0.7'']"
proof -
  have h: "canonical (''>='', ''1'', ''2'', ''3'')" "canonical (''<'', ''2'', ''0'', ''0'')"
    "canonical ([], ''10'', ''0'', ''7'')"
    by (simp_all add: canonical_def operand_defs cls_defs)
  from parseRange_idempotent [of "[(''>='', ''1'', ''2'', ''3''), (''<'', ''2'', ''0'', ''0''),
      ([], ''10'', ''0'', ''7'')]" asciiOnly] h
  show ?thesis by (simp add: comparatorText_def)
qed

end
